theory Spec2Isabelle
  imports Main "HOL-Library.Word"
begin

unbundle bit_operations_syntax

section \<open>Machine types and fatal conditions\<close>

type_synonym u8 = "8 word"
type_synonym u16 = "16 word"
type_synonym u32 = "32 word"
type_synonym u64 = "64 word"

text \<open>
  Conditions under which the C++ program does not return normally: an integer division
  by zero (a trap), and a failed \<open>NS_ASSERT_MSG\<close>.
\<close>

datatype fatal = DivisionByZero | AssertFailed

section \<open>int-header.h: one telemetry hop\<close>

text \<open>
  \<open>IntHop\<close> is a 64-bit bit-field struct; each field is a word of the width the source
  declares: \<open>lineRate : 64 - 24 - 20 - 17\<close> (3 bits), \<open>time : 24\<close>, \<open>bytes : 20\<close>,
  \<open>qlen : 17\<close>.  An assignment to a bit-field keeps the low bits of the value (\<open>ucast\<close>).
\<close>

record IntHop =
  lineRate :: "3 word"
  time :: "24 word"
  bytes :: "20 word"
  qlen :: "17 word"

definition timeWidth :: nat where "timeWidth = 24"
definition bytesWidth :: nat where "bytesWidth = 20"
definition qlenWidth :: nat where "qlenWidth = 17"

definition byteUnit :: u32 where "byteUnit = 128"
definition qlenUnit :: u32 where "qlenUnit = 80"

definition lineRateValues :: "u64 list" where
  "lineRateValues =
     [25000000000, 50000000000, 100000000000, 200000000000, 400000000000, 0, 0, 0]"

text \<open>
  The static \<open>IntHop::multi\<close> (initialised to 1, assignable by any code of the program)
  is the first argument \<open>multi\<close> of every operation that reads it.
\<close>

definition GetLineRate :: "IntHop \<Rightarrow> u64" where
  "GetLineRate h = lineRateValues ! unat (lineRate h)"

text \<open>\<open>(uint64_t)IntHop_t.bytes * byteUnit * multi\<close>: the cast makes it 64-bit arithmetic.\<close>

definition GetBytes :: "u32 \<Rightarrow> IntHop \<Rightarrow> u64" where
  "GetBytes multi h = ucast (bytes h) * ucast byteUnit * ucast multi"

text \<open>\<open>(uint32_t)IntHop_t.qlen * qlenUnit * multi\<close>: 32-bit arithmetic.\<close>

definition GetQlen :: "u32 \<Rightarrow> IntHop \<Rightarrow> u32" where
  "GetQlen multi h = ucast (qlen h) * qlenUnit * multi"

definition GetTime :: "IntHop \<Rightarrow> u64" where
  "GetTime h = ucast (time h)"

text \<open>
  What \<open>Set\<close> prints: the line \<open>Error: IntHeader unknown rate: <rate>\<close> of its
  \<open>default\<close> branch.
\<close>

datatype message = UnknownRate u64

text \<open>
  \<open>Set\<close> in the order of the source: the time, the two quotients (\<open>byteUnit * multi\<close>
  and \<open>qlenUnit * multi\<close> are products of two \<open>uint32_t\<close>, so they wrap at \<open>2^32\<close>;
  the first quotient is a 64-bit division, the second a 32-bit one; a zero divisor
  traps), then the \<open>switch\<close> on the rate.  The result is the hop after the call and the
  lines printed.
\<close>

definition Set :: "u32 \<Rightarrow> IntHop \<Rightarrow> u64 \<Rightarrow> u64 \<Rightarrow> u32 \<Rightarrow> u64 \<Rightarrow> fatal + (IntHop \<times> message list)" where
  "Set multi h t b q r =
     (let h1 = h\<lparr>time := ucast t\<rparr> in
      if byteUnit * multi = 0 then Inl DivisionByZero
      else
        let h2 = h1\<lparr>bytes := ucast (b div ucast (byteUnit * multi))\<rparr> in
        if qlenUnit * multi = 0 then Inl DivisionByZero
        else
          let h3 = h2\<lparr>qlen := ucast (q div (qlenUnit * multi))\<rparr> in
          if r = 25000000000 then Inr (h3\<lparr>lineRate := 0\<rparr>, [])
          else if r = 50000000000 then Inr (h3\<lparr>lineRate := 1\<rparr>, [])
          else if r = 100000000000 then Inr (h3\<lparr>lineRate := 2\<rparr>, [])
          else if r = 200000000000 then Inr (h3\<lparr>lineRate := 3\<rparr>, [])
          else if r = 400000000000 then Inr (h3\<lparr>lineRate := 4\<rparr>, [])
          else Inr (h3, [UnknownRate r]))"

text \<open>
  In \<open>GetBytesDelta\<close> and \<open>GetTimeDelta\<close> the operands are bit-fields of 20 and 24
  bits.  C++ integral promotion (conv.prom) turns a bit-field whose values all fit in
  \<open>int\<close> into an \<open>int\<close>, whatever type it is declared with (here \<open>uint64_t\<close>), so the
  sums and differences are 32-bit \<open>int\<close> arithmetic; \<open>1 << bytesWidth\<close>
  is an \<open>int\<close> too.  Multiplying by \<open>byteUnit\<close> and \<open>multi\<close> (both \<open>uint32_t\<close>)
  converts to \<open>unsigned int\<close>: the scaling is 32-bit arithmetic, widened to the
  \<open>uint64_t\<close> result only at the \<open>return\<close>.  In \<open>GetTimeDelta\<close> the \<open>int\<close> is
  converted to \<open>uint64_t\<close> at the \<open>return\<close> (sign extension, \<open>scast\<close>).
\<close>

definition GetBytesDelta :: "u32 \<Rightarrow> IntHop \<Rightarrow> IntHop \<Rightarrow> u64" where
  "GetBytesDelta multi a b =
     (if bytes a \<ge> bytes b
      then ucast (((ucast (bytes a) :: u32) - ucast (bytes b)) * byteUnit * multi)
      else ucast (((ucast (bytes a) :: u32) + push_bit bytesWidth 1 - ucast (bytes b))
                    * byteUnit * multi))"

definition GetTimeDelta :: "IntHop \<Rightarrow> IntHop \<Rightarrow> u64" where
  "GetTimeDelta a b =
     (if time a \<ge> time b
      then scast ((ucast (time a) :: u32) - ucast (time b))
      else scast ((ucast (time a) :: u32) + push_bit timeWidth 1 - ucast (time b)))"

text \<open>The rates \<open>Set\<close> accepts, and the index its \<open>switch\<close> stores for each.\<close>

definition supported_rates :: "u64 list" where
  "supported_rates = [25000000000, 50000000000, 100000000000, 200000000000, 400000000000]"

text \<open>No product of \<open>Set\<close> is a zero divisor: \<open>Set\<close> does not trap.\<close>

definition multi_ok :: "u32 \<Rightarrow> bool" where
  "multi_ok multi \<longleftrightarrow> byteUnit * multi \<noteq> 0 \<and> qlenUnit * multi \<noteq> 0"

text \<open>
  \<open>quantized_ok unit x y\<close>: \<open>y\<close> is a multiple of \<open>unit\<close> in the interval
  \<open>[x - unit + 1, x]\<close>.
\<close>

definition quantized_ok :: "nat \<Rightarrow> nat \<Rightarrow> nat \<Rightarrow> bool" where
  "quantized_ok unit x y \<longleftrightarrow> int x - int unit + 1 \<le> int y \<and> y \<le> x \<and> unit dvd y"

text \<open>A hop as the constructor of \<open>IntHeader\<close> leaves it (\<open>hop[i] = {0}\<close>).\<close>

definition zero_hop :: IntHop where
  "zero_hop = \<lparr>lineRate = 0, time = 0, bytes = 0, qlen = 0\<rparr>"

text \<open>The wrap distance from \<open>y\<close> to \<open>x\<close> of two \<open>w\<close>-bit counters.\<close>

definition wrap_distance :: "nat \<Rightarrow> nat \<Rightarrow> nat \<Rightarrow> nat" where
  "wrap_distance w x y = (if y \<le> x then x - y else x + 2 ^ w - y)"

section \<open>int-header.h: the header\<close>

datatype Mode = NORMAL | TS | PINT | NONE

definition maxHop :: nat where "maxHop = 5"

text \<open>
  The members of the header's anonymous union.  \<open>IntHeader_t\<close> is the array
  \<open>hop[maxHop]\<close> followed by the \<open>uint16_t nhop\<close>; \<open>ts\<close> and \<open>pint\<close> share the first
  bytes of the same storage, that is, of \<open>hop[0]\<close>.  The record holds the storage as
  \<open>IntHeader_t\<close> sees it; \<open>ts\<close>, \<open>pint.power\<close> and \<open>pint.IntHeader_u.power_lo8\<close> are read
  and written through the bits of \<open>hop[0]\<close> (below).  The static \<open>IntHeader::mode\<close> and
  \<open>IntHeader::pint_bytes\<close> are arguments \<open>mode\<close> and \<open>pint_bytes\<close> of the operations.
\<close>

record IntHeader =
  hop :: "IntHop list"
  nhop :: u16

text \<open>
  \<open>PushHop\<close>: \<open>idx = nhop % maxHop\<close>, \<open>hop[idx].Set(...)\<close>, \<open>nhop++\<close> (a \<open>uint16_t\<close>, so
  the increment wraps at \<open>2^16\<close>).  The result is the header after the call and the lines
  \<open>Set\<close> printed.
\<close>

definition PushHop :: "Mode \<Rightarrow> u32 \<Rightarrow> IntHeader \<Rightarrow> u64 \<Rightarrow> u64 \<Rightarrow> u32 \<Rightarrow> u64 \<Rightarrow> fatal + (IntHeader \<times> message list)" where
  "PushHop mode multi hdr t b q r =
     (if mode = NORMAL then
        let idx = unat (nhop hdr) mod maxHop in
        case Set multi (hop hdr ! idx) t b q r of
          Inl e \<Rightarrow> Inl e
        | Inr (h', out) \<Rightarrow> Inr (hdr\<lparr>hop := (hop hdr)[idx := h'], nhop := nhop hdr + 1\<rparr>, out)
      else Inr (hdr, []))"

text \<open>The header's storage has its \<open>maxHop\<close> slots.\<close>

definition wf_header :: "IntHeader \<Rightarrow> bool" where
  "wf_header hdr \<longleftrightarrow> length (hop hdr) = maxHop"

text \<open>The constructor \<open>IntHeader()\<close>: \<open>nhop = 0\<close> and every hop zeroed.\<close>

definition IntHeader_new :: IntHeader where
  "IntHeader_new = \<lparr>hop = replicate maxHop zero_hop, nhop = 0\<rparr>"

section \<open>int-header.h: the storage behind the bit-fields and the union\<close>

text \<open>
  The layout of a hop in its 64 bits, as GCC and Clang lay out the bit-fields of
  \<open>IntHop_t\<close> on a little-endian target: in declaration order from the least significant
  bit, \<open>lineRate\<close> in bits 0 to 2, \<open>time\<close> in bits 3 to 26, \<open>bytes\<close> in bits 27 to 46 and
  \<open>qlen\<close> in bits 47 to 63.  \<open>buf[0]\<close> is the low and \<open>buf[1]\<close> the high 32-bit half;
  an assignment to one of them replaces that half of the 64 bits.
\<close>

definition hop_bits :: "IntHop \<Rightarrow> u64" where
  "hop_bits h = ucast (lineRate h) OR push_bit 3 (ucast (time h)) OR
                push_bit 27 (ucast (bytes h)) OR push_bit 47 (ucast (qlen h))"

definition bits_hop :: "u64 \<Rightarrow> IntHop" where
  "bits_hop w = \<lparr>lineRate = ucast w, time = ucast (drop_bit 3 w),
                 bytes = ucast (drop_bit 27 w), qlen = ucast (drop_bit 47 w)\<rparr>"

definition buf0 :: "IntHop \<Rightarrow> u32" where
  "buf0 h = ucast (hop_bits h)"

definition buf1 :: "IntHop \<Rightarrow> u32" where
  "buf1 h = ucast (drop_bit 32 (hop_bits h))"

definition set_buf0 :: "IntHop \<Rightarrow> u32 \<Rightarrow> IntHop" where
  "set_buf0 h v = bits_hop (push_bit 32 (ucast (buf1 h)) OR ucast v)"

definition set_buf1 :: "IntHop \<Rightarrow> u32 \<Rightarrow> IntHop" where
  "set_buf1 h v = bits_hop (push_bit 32 (ucast v) OR ucast (buf0 h))"

text \<open>
  The other members of the header's union, through the bits of \<open>hop[0]\<close>, which lies at
  offset 0 as they do: \<open>ts\<close> is its 64 bits, \<open>pint.power\<close> the low 16 and
  \<open>pint.IntHeader_u.power_lo8\<close> the low 8 of them; a write replaces those bits and keeps
  the others.
\<close>

definition ts :: "IntHeader \<Rightarrow> u64" where
  "ts hdr = hop_bits (hop hdr ! 0)"

definition set_ts :: "IntHeader \<Rightarrow> u64 \<Rightarrow> IntHeader" where
  "set_ts hdr v = hdr\<lparr>hop := (hop hdr)[0 := bits_hop v]\<rparr>"

definition pint_power :: "IntHeader \<Rightarrow> u16" where
  "pint_power hdr = ucast (hop_bits (hop hdr ! 0))"

definition set_pint_power :: "IntHeader \<Rightarrow> u16 \<Rightarrow> IntHeader" where
  "set_pint_power hdr v =
     hdr\<lparr>hop := (hop hdr)[0 := bits_hop (push_bit 16 (drop_bit 16 (hop_bits (hop hdr ! 0))) OR ucast v)]\<rparr>"

definition power_lo8 :: "IntHeader \<Rightarrow> u8" where
  "power_lo8 hdr = ucast (hop_bits (hop hdr ! 0))"

definition set_power_lo8 :: "IntHeader \<Rightarrow> u8 \<Rightarrow> IntHeader" where
  "set_power_lo8 hdr v =
     hdr\<lparr>hop := (hop hdr)[0 := bits_hop (push_bit 8 (drop_bit 8 (hop_bits (hop hdr ! 0))) OR ucast v)]\<rparr>"

text \<open>
  The values of \<open>sizeof\<close> that \<open>GetStaticSize\<close> uses: an \<open>IntHop\<close> is a union of a
  64-bit bit-field struct and \<open>uint32_t[2]\<close>, \<open>nhop\<close> is a \<open>uint16_t\<close>, \<open>ts\<close> a
  \<open>uint64_t\<close>, and \<open>pint\<close> a union of a \<open>uint16_t\<close> and a struct of two \<open>uint8_t\<close>.
\<close>

definition sizeof_IntHop :: nat where "sizeof_IntHop = 8"

definition sizeof_nhop :: nat where "sizeof_nhop = 2"

definition sizeof_ts :: nat where "sizeof_ts = 8"

definition sizeof_pint :: nat where "sizeof_pint = 2"

text \<open>
  \<open>GetStaticSize\<close>: \<open>sizeof(IntHeader_t.hop) + sizeof(IntHeader_t.nhop)\<close>, \<open>sizeof(ts)\<close>,
  \<open>sizeof(pint)\<close> or 0.  It does not read \<open>pint_bytes\<close>.
\<close>

definition GetStaticSize :: "Mode \<Rightarrow> u32" where
  "GetStaticSize mode =
     (if mode = NORMAL then of_nat (maxHop * sizeof_IntHop) + of_nat sizeof_nhop
      else if mode = TS then of_nat sizeof_ts
      else if mode = PINT then of_nat sizeof_pint
      else 0)"

definition GetTs :: "Mode \<Rightarrow> IntHeader \<Rightarrow> u64" where
  "GetTs mode hdr = (if mode = TS then ts hdr else 0)"

definition GetPower :: "Mode \<Rightarrow> int \<Rightarrow> IntHeader \<Rightarrow> u16" where
  "GetPower mode pint_bytes hdr =
     (if mode = PINT then (if pint_bytes = 1 then ucast (power_lo8 hdr) else pint_power hdr)
      else 0)"

definition SetPower :: "Mode \<Rightarrow> int \<Rightarrow> IntHeader \<Rightarrow> u16 \<Rightarrow> IntHeader" where
  "SetPower mode pint_bytes hdr pw =
     (if mode = PINT then
        (if pint_bytes = 1 then set_power_lo8 hdr (ucast pw) else set_pint_power hdr pw)
      else hdr)"

section \<open>The packet buffer\<close>

text \<open>
  Modelled from the spec: \<open>Buffer::Iterator\<close> (ns3/buffer.h) is not among the source
  files.  The spec has \<open>Serialize\<close> and \<open>Deserialize\<close> write and read 8-, 16-, 32- and
  64-bit words "directly against a contiguous packet byte region" and asks for a fixed
  byte order.  An iterator is a position in a byte region: the bytes before the position
  and the bytes from the position on.  Writing a byte overwrites the byte at the position
  and advances by one, reading a byte returns it and advances by one; at the end of the
  region both fail (the assertion of the buffer).  A word of 16, 32 or 64 bits is written
  and read least significant byte first.
\<close>

record Iterator =
  before :: "u8 list"
  ahead :: "u8 list"

text \<open>
  Modelled from the spec: the iterator's \<open>WriteU8\<close>, \<open>ReadU8\<close> and, through the bytes
  of a word in little-endian order, \<open>WriteU16\<close>, \<open>WriteU32\<close>, \<open>WriteU64\<close>, \<open>ReadU16\<close>,
  \<open>ReadU32\<close> and \<open>ReadU64\<close> (ns3/buffer.h, not among the source files).
\<close>

definition WriteU8 :: "Iterator \<Rightarrow> u8 \<Rightarrow> fatal + Iterator" where
  "WriteU8 i v =
     (case ahead i of
        [] \<Rightarrow> Inl AssertFailed
      | x # rest \<Rightarrow> Inr \<lparr>before = before i @ [v], ahead = rest\<rparr>)"

definition ReadU8 :: "Iterator \<Rightarrow> fatal + (u8 \<times> Iterator)" where
  "ReadU8 i =
     (case ahead i of
        [] \<Rightarrow> Inl AssertFailed
      | x # rest \<Rightarrow> Inr (x, \<lparr>before = before i @ [x], ahead = rest\<rparr>))"

definition le_bytes :: "nat \<Rightarrow> 'a::len word \<Rightarrow> u8 list" where
  "le_bytes n w = map (\<lambda>k. ucast (drop_bit (8 * k) w)) [0..<n]"

primrec le_word :: "u8 list \<Rightarrow> 'a::len word" where
  "le_word [] = 0"
| "le_word (b # bs) = ucast b OR push_bit 8 (le_word bs)"

fun WriteBytes :: "Iterator \<Rightarrow> u8 list \<Rightarrow> fatal + Iterator" where
  "WriteBytes i [] = Inr i"
| "WriteBytes i (b # bs) =
     (case WriteU8 i b of Inl e \<Rightarrow> Inl e | Inr i' \<Rightarrow> WriteBytes i' bs)"

fun ReadBytes :: "Iterator \<Rightarrow> nat \<Rightarrow> fatal + (u8 list \<times> Iterator)" where
  "ReadBytes i 0 = Inr ([], i)"
| "ReadBytes i (Suc n) =
     (case ReadU8 i of
        Inl e \<Rightarrow> Inl e
      | Inr (b, i') \<Rightarrow>
          (case ReadBytes i' n of Inl e \<Rightarrow> Inl e | Inr (bs, i'') \<Rightarrow> Inr (b # bs, i'')))"

definition WriteU16 :: "Iterator \<Rightarrow> u16 \<Rightarrow> fatal + Iterator" where
  "WriteU16 i v = WriteBytes i (le_bytes 2 v)"

definition WriteU32 :: "Iterator \<Rightarrow> u32 \<Rightarrow> fatal + Iterator" where
  "WriteU32 i v = WriteBytes i (le_bytes 4 v)"

definition WriteU64 :: "Iterator \<Rightarrow> u64 \<Rightarrow> fatal + Iterator" where
  "WriteU64 i v = WriteBytes i (le_bytes 8 v)"

definition ReadU16 :: "Iterator \<Rightarrow> fatal + (u16 \<times> Iterator)" where
  "ReadU16 i = (case ReadBytes i 2 of Inl e \<Rightarrow> Inl e | Inr (bs, i') \<Rightarrow> Inr (le_word bs, i'))"

definition ReadU32 :: "Iterator \<Rightarrow> fatal + (u32 \<times> Iterator)" where
  "ReadU32 i = (case ReadBytes i 4 of Inl e \<Rightarrow> Inl e | Inr (bs, i') \<Rightarrow> Inr (le_word bs, i'))"

definition ReadU64 :: "Iterator \<Rightarrow> fatal + (u64 \<times> Iterator)" where
  "ReadU64 i = (case ReadBytes i 8 of Inl e \<Rightarrow> Inl e | Inr (bs, i') \<Rightarrow> Inr (le_word bs, i'))"

section \<open>int-header.cc: \<open>Serialize\<close> and \<open>Deserialize\<close>\<close>

text \<open>
  Both copy \<open>start\<close> into the local iterator \<open>i\<close> and dispatch on the mode.  The loops
  \<open>for (j = 0; j < maxHop; j++)\<close> run over the indices \<open>[0..<maxHop]\<close>.  \<open>Serialize\<close>
  returns the local iterator after the last write (the region with the bytes written);
  \<open>Deserialize\<close> returns its result \<open>GetStaticSize()\<close>, the header after the call and
  the local iterator after the last read.
\<close>

fun Serialize_loop :: "IntHeader \<Rightarrow> nat list \<Rightarrow> Iterator \<Rightarrow> fatal + Iterator" where
  "Serialize_loop hdr [] i = Inr i"
| "Serialize_loop hdr (j # js) i =
     (case WriteU32 i (buf0 (hop hdr ! j)) of
        Inl e \<Rightarrow> Inl e
      | Inr i1 \<Rightarrow>
          (case WriteU32 i1 (buf1 (hop hdr ! j)) of
             Inl e \<Rightarrow> Inl e
           | Inr i2 \<Rightarrow> Serialize_loop hdr js i2))"

definition Serialize :: "Mode \<Rightarrow> int \<Rightarrow> IntHeader \<Rightarrow> Iterator \<Rightarrow> fatal + Iterator" where
  "Serialize mode pint_bytes hdr start =
     (let i = start in
      if mode = NORMAL then
        (case Serialize_loop hdr [0..<maxHop] i of
           Inl e \<Rightarrow> Inl e
         | Inr i' \<Rightarrow> WriteU16 i' (nhop hdr))
      else if mode = TS then WriteU64 i (ts hdr)
      else if mode = PINT then
        (if pint_bytes = 1 then WriteU8 i (power_lo8 hdr)
         else if pint_bytes = 2 then WriteU16 i (pint_power hdr)
         else Inr i)
      else Inr i)"

fun Deserialize_loop :: "IntHeader \<Rightarrow> nat list \<Rightarrow> Iterator \<Rightarrow> fatal + (IntHeader \<times> Iterator)" where
  "Deserialize_loop hdr [] i = Inr (hdr, i)"
| "Deserialize_loop hdr (j # js) i =
     (case ReadU32 i of
        Inl e \<Rightarrow> Inl e
      | Inr (v0, i1) \<Rightarrow>
          let hdr1 = hdr\<lparr>hop := (hop hdr)[j := set_buf0 (hop hdr ! j) v0]\<rparr> in
          (case ReadU32 i1 of
             Inl e \<Rightarrow> Inl e
           | Inr (v1, i2) \<Rightarrow>
               let hdr2 = hdr1\<lparr>hop := (hop hdr1)[j := set_buf1 (hop hdr1 ! j) v1]\<rparr> in
               Deserialize_loop hdr2 js i2))"

definition Deserialize :: "Mode \<Rightarrow> int \<Rightarrow> IntHeader \<Rightarrow> Iterator \<Rightarrow> fatal + (u32 \<times> IntHeader \<times> Iterator)" where
  "Deserialize mode pint_bytes hdr start =
     (let i = start in
      if mode = NORMAL then
        (case Deserialize_loop hdr [0..<maxHop] i of
           Inl e \<Rightarrow> Inl e
         | Inr (hdr1, i1) \<Rightarrow>
             (case ReadU16 i1 of
                Inl e \<Rightarrow> Inl e
              | Inr (n, i2) \<Rightarrow> Inr (GetStaticSize mode, hdr1\<lparr>nhop := n\<rparr>, i2)))
      else if mode = TS then
        (case ReadU64 i of
           Inl e \<Rightarrow> Inl e
         | Inr (v, i1) \<Rightarrow> Inr (GetStaticSize mode, set_ts hdr v, i1))
      else if mode = PINT then
        (if pint_bytes = 1 then
           (case ReadU8 i of
              Inl e \<Rightarrow> Inl e
            | Inr (v, i1) \<Rightarrow> Inr (GetStaticSize mode, set_power_lo8 hdr v, i1))
         else if pint_bytes = 2 then
           (case ReadU16 i of
              Inl e \<Rightarrow> Inl e
            | Inr (v, i1) \<Rightarrow> Inr (GetStaticSize mode, set_pint_power hdr v, i1))
         else Inr (GetStaticSize mode, hdr, i))
      else Inr (GetStaticSize mode, hdr, i))"

text \<open>
  For the statements about the two: the bytes of a header on the wire in each mode, an
  iterator moved to offset \<open>n\<close> of its region, and equality of two headers in what a
  mode makes observable (the ring and the counter in \<open>NORMAL\<close> mode, \<open>GetTs()\<close> in \<open>TS\<close>
  mode, \<open>GetPower()\<close> in \<open>PINT\<close> mode, nothing in \<open>NONE\<close> mode).
\<close>

definition hop_wire :: "IntHop \<Rightarrow> u8 list" where
  "hop_wire h = le_bytes 4 (buf0 h) @ le_bytes 4 (buf1 h)"

definition wire :: "Mode \<Rightarrow> int \<Rightarrow> IntHeader \<Rightarrow> u8 list" where
  "wire mode pint_bytes hdr =
     (case mode of
        NORMAL \<Rightarrow> concat (map (\<lambda>j. hop_wire (hop hdr ! j)) [0..<maxHop]) @ le_bytes 2 (nhop hdr)
      | TS \<Rightarrow> le_bytes 8 (ts hdr)
      | PINT \<Rightarrow> (if pint_bytes = 1 then [power_lo8 hdr]
                 else if pint_bytes = 2 then le_bytes 2 (pint_power hdr) else [])
      | NONE \<Rightarrow> [])"

definition at_position :: "nat \<Rightarrow> Iterator \<Rightarrow> Iterator" where
  "at_position n i = \<lparr>before = take n (before i @ ahead i), ahead = drop n (before i @ ahead i)\<rparr>"

definition observable_eq :: "Mode \<Rightarrow> int \<Rightarrow> IntHeader \<Rightarrow> IntHeader \<Rightarrow> bool" where
  "observable_eq mode pint_bytes h h' =
     (case mode of
        NORMAL \<Rightarrow> hop h' = hop h \<and> nhop h' = nhop h
      | TS \<Rightarrow> GetTs mode h' = GetTs mode h
      | PINT \<Rightarrow> GetPower mode pint_bytes h' = GetPower mode pint_bytes h
      | NONE \<Rightarrow> True)"

section \<open>node.cc: the node, its devices and its callbacks\<close>

text \<open>
  Objects held through \<open>Ptr<...>\<close> and callbacks are identified by a number (the
  identity of the object); a \<open>Ptr\<close> that may be null is an \<open>option\<close>.  Packets,
  addresses and packet types are passed through unchanged, so they are numbers too.
  The node itself (\<open>this\<close>) is identified by its \<open>m_id\<close>.
\<close>

type_synonym NetDevice = nat
type_synonym ProtocolHandler = nat
type_synonym DeviceAdditionListener = nat
type_synonym Packet = nat
type_synonym Address = nat
type_synonym PacketType = nat

text \<open>
  \<open>MakeCallback (&Node::NonPromiscReceiveFromDevice, this)\<close> and
  \<open>MakeCallback (&Node::PromiscReceiveFromDevice, this)\<close>, for the node \<open>this\<close>.
\<close>

datatype Callback = NonPromiscReceiveCallback u32 | PromiscReceiveCallback u32

text \<open>
  Modelled from the spec: the class \<open>NetDevice\<close> (net-device.h) is not among the source
  files.  A device has the slots the node sets (the spec's device capability:
  \<open>SetReceiveCallback(fn)\<close>, \<open>SetPromiscReceiveCallback(fn)\<close>, an index slot set by the
  dispatcher, the owning node) and an address (\<open>GetAddress()\<close>); each setter stores its
  argument in the slot of that device and touches nothing else.
\<close>

record NetDevice_state =
  dev_node :: "u32 option"
  dev_ifIndex :: u32
  dev_address :: Address
  dev_receiveCallback :: "Callback option"
  dev_promiscReceiveCallback :: "Callback option"

type_synonym device_store = "NetDevice \<Rightarrow> NetDevice_state"

text \<open>
  Modelled from the spec: the setters of \<open>NetDevice\<close> that the node calls (net-device.h,
  not among the source files), each on the store of all devices.
\<close>

definition SetNode :: "device_store \<Rightarrow> NetDevice \<Rightarrow> u32 \<Rightarrow> device_store" where
  "SetNode ds d n = ds(d := (ds d)\<lparr>dev_node := Some n\<rparr>)"

definition SetIfIndex :: "device_store \<Rightarrow> NetDevice \<Rightarrow> u32 \<Rightarrow> device_store" where
  "SetIfIndex ds d i = ds(d := (ds d)\<lparr>dev_ifIndex := i\<rparr>)"

definition SetReceiveCallback :: "device_store \<Rightarrow> NetDevice \<Rightarrow> Callback \<Rightarrow> device_store" where
  "SetReceiveCallback ds d cb = ds(d := (ds d)\<lparr>dev_receiveCallback := Some cb\<rparr>)"

definition SetPromiscReceiveCallback :: "device_store \<Rightarrow> NetDevice \<Rightarrow> Callback \<Rightarrow> device_store" where
  "SetPromiscReceiveCallback ds d cb = ds(d := (ds d)\<lparr>dev_promiscReceiveCallback := Some cb\<rparr>)"

text \<open>
  What the node does to the outside, in the order it does it: it invokes a protocol
  handler or a device-addition listener (callbacks are opaque: the invocation and its
  arguments are recorded, and a callback does not call back into the node while it
  runs), or it schedules \<open>NetDevice::Initialize\<close> of a device in a context
  (\<open>Simulator::ScheduleWithContext (GetId (), Seconds (0.0), ...)\<close>).
\<close>

datatype event =
    HandlerInvoked ProtocolHandler NetDevice Packet u16 Address Address PacketType
  | ListenerInvoked DeviceAdditionListener NetDevice
  | ScheduledInitialize u32 NetDevice

record ProtocolHandlerEntry =
  handler :: ProtocolHandler
  protocol :: u16
  device :: "NetDevice option"
  promiscuous :: bool

record Node =
  m_id :: u32
  m_sid :: u32
  m_devices :: "NetDevice list"
  m_handlers :: "ProtocolHandlerEntry list"
  m_deviceAdditionListeners :: "DeviceAdditionListener list"

text \<open>The node, the devices it points to, and what it has done to the outside so far.\<close>

record sim =
  node :: Node
  devices :: device_store
  trace :: "event list"

text \<open>\<open>NotifyDeviceAdded\<close>: the loop over \<open>m_deviceAdditionListeners\<close>.\<close>

primrec NotifyDeviceAdded_loop :: "DeviceAdditionListener list \<Rightarrow> NetDevice \<Rightarrow> event list \<Rightarrow> event list" where
  "NotifyDeviceAdded_loop [] d tr = tr"
| "NotifyDeviceAdded_loop (l # ls) d tr = NotifyDeviceAdded_loop ls d (tr @ [ListenerInvoked l d])"

definition NotifyDeviceAdded :: "sim \<Rightarrow> NetDevice \<Rightarrow> sim" where
  "NotifyDeviceAdded w d =
     w\<lparr>trace := NotifyDeviceAdded_loop (m_deviceAdditionListeners (node w)) d (trace w)\<rparr>"

text \<open>
  \<open>AddDevice\<close>, statement by statement; \<open>index\<close> is \<open>m_devices.size()\<close> as a
  \<open>uint32_t\<close>.  The result is the index and the state after the call.
\<close>

definition AddDevice :: "sim \<Rightarrow> NetDevice \<Rightarrow> u32 \<times> sim" where
  "AddDevice w d =
     (let index = (of_nat (length (m_devices (node w))) :: u32);
          w1 = w\<lparr>node := (node w)\<lparr>m_devices := m_devices (node w) @ [d]\<rparr>\<rparr>;
          w2 = w1\<lparr>devices := SetNode (devices w1) d (m_id (node w1))\<rparr>;
          w3 = w2\<lparr>devices := SetIfIndex (devices w2) d index\<rparr>;
          w4 = w3\<lparr>devices := SetReceiveCallback (devices w3) d
                                (NonPromiscReceiveCallback (m_id (node w3)))\<rparr>;
          w5 = w4\<lparr>trace := trace w4 @ [ScheduledInitialize (m_id (node w4)) d]\<rparr>;
          w6 = NotifyDeviceAdded w5 d
      in (index, w6))"

text \<open>
  \<open>RegisterProtocolHandler\<close>: when \<open>promiscuous\<close>, the loop over \<open>m_devices\<close> (no device
  given) or the one call on the given device; then \<open>m_handlers.push_back (entry)\<close>.
\<close>

primrec SetPromisc_loop :: "NetDevice list \<Rightarrow> Callback \<Rightarrow> device_store \<Rightarrow> device_store" where
  "SetPromisc_loop [] cb ds = ds"
| "SetPromisc_loop (d # rest) cb ds = SetPromisc_loop rest cb (SetPromiscReceiveCallback ds d cb)"

definition RegisterProtocolHandler :: "sim \<Rightarrow> ProtocolHandler \<Rightarrow> u16 \<Rightarrow> NetDevice option \<Rightarrow> bool \<Rightarrow> sim" where
  "RegisterProtocolHandler w h protocolType dev promisc =
     (let entry = \<lparr>handler = h, protocol = protocolType, device = dev, promiscuous = promisc\<rparr>;
          w1 = (if promisc then
                  (case dev of
                     None \<Rightarrow> w\<lparr>devices := SetPromisc_loop (m_devices (node w))
                                            (PromiscReceiveCallback (m_id (node w))) (devices w)\<rparr>
                   | Some d \<Rightarrow> w\<lparr>devices := SetPromiscReceiveCallback (devices w) d
                                            (PromiscReceiveCallback (m_id (node w)))\<rparr>)
                else w)
      in w1\<lparr>node := (node w1)\<lparr>m_handlers := m_handlers (node w1) @ [entry]\<rparr>\<rparr>)"

text \<open>
  \<open>ReceiveFromDevice\<close>: the assertion on the simulator's context (the argument
  \<open>context\<close> is \<open>Simulator::GetContext ()\<close>), then the loop over \<open>m_handlers\<close> with its
  three nested tests; the loop carries what has been invoked and \<open>found\<close>.  The
  \<open>NS_LOG\<close> lines change nothing.
\<close>

fun ReceiveFromDevice_loop ::
  "ProtocolHandlerEntry list \<Rightarrow> NetDevice \<Rightarrow> Packet \<Rightarrow> u16 \<Rightarrow> Address \<Rightarrow> Address \<Rightarrow> PacketType
     \<Rightarrow> bool \<Rightarrow> event list \<times> bool \<Rightarrow> event list \<times> bool" where
  "ReceiveFromDevice_loop [] dev packet proto from to packetType promisc acc = acc"
| "ReceiveFromDevice_loop (i # rest) dev packet proto from to packetType promisc (tr, found) =
     (if device i = None \<or> device i = Some dev then
        if protocol i = 0 \<or> protocol i = proto then
          if promisc = promiscuous i then
            ReceiveFromDevice_loop rest dev packet proto from to packetType promisc
              (tr @ [HandlerInvoked (handler i) dev packet proto from to packetType], True)
          else ReceiveFromDevice_loop rest dev packet proto from to packetType promisc (tr, found)
        else ReceiveFromDevice_loop rest dev packet proto from to packetType promisc (tr, found)
      else ReceiveFromDevice_loop rest dev packet proto from to packetType promisc (tr, found))"

definition ReceiveFromDevice ::
  "sim \<Rightarrow> u32 \<Rightarrow> NetDevice \<Rightarrow> Packet \<Rightarrow> u16 \<Rightarrow> Address \<Rightarrow> Address \<Rightarrow> PacketType \<Rightarrow> bool
     \<Rightarrow> fatal + (bool \<times> sim)" where
  "ReceiveFromDevice w context dev packet proto from to packetType promisc =
     (if context \<noteq> m_id (node w) then Inl AssertFailed
      else
        let (tr, found) = ReceiveFromDevice_loop (m_handlers (node w)) dev packet proto from to
                            packetType promisc (trace w, False)
        in Inr (found, w\<lparr>trace := tr\<rparr>))"

definition PromiscReceiveFromDevice ::
  "sim \<Rightarrow> u32 \<Rightarrow> NetDevice \<Rightarrow> Packet \<Rightarrow> u16 \<Rightarrow> Address \<Rightarrow> Address \<Rightarrow> PacketType
     \<Rightarrow> fatal + (bool \<times> sim)" where
  "PromiscReceiveFromDevice w context dev packet proto from to packetType =
     ReceiveFromDevice w context dev packet proto from to packetType True"

definition NonPromiscReceiveFromDevice ::
  "sim \<Rightarrow> u32 \<Rightarrow> NetDevice \<Rightarrow> Packet \<Rightarrow> u16 \<Rightarrow> Address \<Rightarrow> fatal + (bool \<times> sim)" where
  "NonPromiscReceiveFromDevice w context dev packet proto from =
     ReceiveFromDevice w context dev packet proto from (dev_address (devices w dev)) 0 False"

text \<open>
  \<open>RegisterDeviceAdditionListener\<close>: \<open>push_back\<close>, then the loop over \<open>m_devices\<close> that
  calls the new listener.
\<close>

primrec replay_loop :: "NetDevice list \<Rightarrow> DeviceAdditionListener \<Rightarrow> event list \<Rightarrow> event list" where
  "replay_loop [] l tr = tr"
| "replay_loop (d # rest) l tr = replay_loop rest l (tr @ [ListenerInvoked l d])"

definition RegisterDeviceAdditionListener :: "sim \<Rightarrow> DeviceAdditionListener \<Rightarrow> sim" where
  "RegisterDeviceAdditionListener w l =
     (let w1 = w\<lparr>node := (node w)\<lparr>m_deviceAdditionListeners :=
                                     m_deviceAdditionListeners (node w) @ [l]\<rparr>\<rparr>
      in w1\<lparr>trace := replay_loop (m_devices (node w1)) l (trace w1)\<rparr>)"

text \<open>
  The matching rule in the words of the specification: an entry matches when its device
  filter is unset or equals the device, its protocol filter is zero or equals the
  protocol type, and its promiscuous flag equals the path.
\<close>

definition entry_matches :: "ProtocolHandlerEntry \<Rightarrow> NetDevice \<Rightarrow> u16 \<Rightarrow> bool \<Rightarrow> bool" where
  "entry_matches e dev protocolType promiscuousPath \<longleftrightarrow>
     (device e = None \<or> device e = Some dev) \<and>
     (protocol e = 0 \<or> protocol e = protocolType) \<and>
     promiscuous e = promiscuousPath"

text \<open>A node with two devices, three handlers and two listeners, for the examples.\<close>

definition example_node :: Node where
  "example_node =
     \<lparr>m_id = 4, m_sid = 0, m_devices = [7, 8],
      m_handlers =
        [\<lparr>handler = 1, protocol = 2048, device = Some 7, promiscuous = False\<rparr>,
         \<lparr>handler = 2, protocol = 0, device = None, promiscuous = False\<rparr>,
         \<lparr>handler = 3, protocol = 0, device = None, promiscuous = True\<rparr>],
      m_deviceAdditionListeners = [20, 21]\<rparr>"

definition no_device :: NetDevice_state where
  "no_device = \<lparr>dev_node = None, dev_ifIndex = 0, dev_address = 0,
                 dev_receiveCallback = None, dev_promiscReceiveCallback = None\<rparr>"

definition example_sim :: sim where
  "example_sim = \<lparr>node = example_node, devices = (\<lambda>d. no_device), trace = []\<rparr>"

section \<open>Properties of \<open>Set\<close>\<close>

lemma Set_returns:
  assumes "multi_ok multi"
  shows "\<exists>h' out. Set multi h t b q r = Inr (h', out)"
  using assms by (simp add: Set_def multi_ok_def Let_def)

lemma Set_fields:
  assumes "Set multi h t b q r = Inr (h', out)"
  shows "time h' = ucast t"
    and "bytes h' = ucast (b div ucast (byteUnit * multi))"
    and "qlen h' = ucast (q div (qlenUnit * multi))"
  using assms by (auto simp: Set_def Let_def split: if_splits)

lemma Set_unknown_rate:
  assumes "Set multi h t b q r = Inr (h', out)" and "r \<notin> set supported_rates"
  shows "lineRate h' = lineRate h" and "out = [UnknownRate r]"
  using assms by (auto simp: Set_def Let_def supported_rates_def split: if_splits)

lemma Set_known_rate:
  assumes "Set multi h t b q r = Inr (h', out)" and "i < length supported_rates"
    and "r = supported_rates ! i"
  shows "lineRate h' = of_nat i" and "out = []"
proof -
  from assms(2) have "i = 0 \<or> i = 1 \<or> i = 2 \<or> i = 3 \<or> i = 4"
    by (auto simp: supported_rates_def)
  with assms(1,3) show "lineRate h' = of_nat i" and "out = []"
    by (auto simp: Set_def Let_def supported_rates_def split: if_splits)
qed

section \<open>Quantisation: \<open>Set\<close> followed by \<open>GetBytes\<close> and \<open>GetQlen\<close>\<close>

lemma unat_byteUnit_multi:
  assumes "unat byteUnit * unat multi < 2 ^ 32"
  shows "unat (byteUnit * multi) = unat byteUnit * unat multi"
  using assms by (simp add: unat_word_ariths)

lemma unat_qlenUnit_multi:
  assumes "unat qlenUnit * unat multi < 2 ^ 32"
  shows "unat (qlenUnit * multi) = unat qlenUnit * unat multi"
  using assms by (simp add: unat_word_ariths)

lemma unat_ucast_u32_u64: "unat (ucast (w :: u32) :: u64) = unat w"
proof -
  have "unat w < 2 ^ 32" using unsigned_less[of w] by simp
  then have "unat w < 2 ^ 64" by simp
  then show ?thesis by (simp add: unsigned_ucast_eq take_bit_nat_eq_self_iff)
qed

lemma stored_bytes_after_Set:
  assumes "Set multi h t b q r = Inr (h', out)"
  shows "unat (bytes h') = (unat b div unat (byteUnit * multi)) mod 2 ^ bytesWidth"
proof -
  have "unat (b div ucast (byteUnit * multi)) = unat b div unat (byteUnit * multi)"
    by (simp only: unat_div unat_ucast_u32_u64)
  moreover have "unat (bytes h') = unat (b div ucast (byteUnit * multi)) mod 2 ^ bytesWidth"
    using Set_fields(2)[OF assms]
    by (simp only: unsigned_ucast_eq take_bit_eq_mod bytesWidth_def) simp
  ultimately show ?thesis by simp
qed

lemma stored_qlen_after_Set:
  assumes "Set multi h t b q r = Inr (h', out)"
  shows "unat (qlen h') = (unat q div unat (qlenUnit * multi)) mod 2 ^ qlenWidth"
  using Set_fields(3)[OF assms]
  by (simp add: unsigned_ucast_eq take_bit_eq_mod unat_div qlenWidth_def)

lemma unat_GetBytes: "unat (GetBytes multi h) = unat (bytes h) * (unat byteUnit * unat multi)"
proof -
  have "unat (bytes h) < 2 ^ 20" using unsigned_less[of "bytes h"] by simp
  then have "unat (bytes h) \<le> 2 ^ 20" by simp
  moreover have "unat multi < 2 ^ 32" using unsigned_less[of multi] by simp
  then have "128 * unat multi \<le> 2 ^ 39" by simp
  ultimately have "unat (bytes h) * (128 * unat multi) \<le> 2 ^ 20 * 2 ^ 39"
    by (rule mult_le_mono)
  then have lt: "unat (bytes h) * 128 * unat multi < 2 ^ 64" by (simp add: mult.assoc)
  have "unat (GetBytes multi h) = (unat (bytes h) * 128 * unat multi) mod 2 ^ 64"
    by (simp add: GetBytes_def byteUnit_def unat_word_ariths unsigned_ucast_eq take_bit_eq_mod
        mod_mult_eq mod_simps)
  with lt show ?thesis by (simp add: mult.assoc byteUnit_def)
qed

lemma unat_GetQlen:
  "unat (GetQlen multi h) = (unat (qlen h) * (unat qlenUnit * unat multi)) mod 2 ^ 32"
  by (simp add: GetQlen_def qlenUnit_def unat_word_ariths unsigned_ucast_eq take_bit_eq_mod
      mod_mult_eq mod_simps mult.assoc)

lemma quantize_bounds:
  fixes x u :: nat
  assumes "0 < u"
  shows "quantized_ok u x (x div u * u)"
proof -
  have "x = x div u * u + x mod u" by simp
  moreover have "x mod u < u" using assms by simp
  ultimately have "int x - int u + 1 \<le> int (x div u * u)" by linarith
  then show ?thesis by (simp add: quantized_ok_def)
qed

lemma GetBytes_quantized:
  assumes S: "Set multi h t b q r = Inr (h', out)"
    and nz: "byteUnit * multi \<noteq> 0"
    and u: "unat byteUnit * unat multi < 2 ^ 32"
    and b: "unat b < 2 ^ bytesWidth * (unat byteUnit * unat multi)"
  shows "quantized_ok (unat byteUnit * unat multi) (unat b) (unat (GetBytes multi h'))"
proof -
  let ?u = "unat byteUnit * unat multi"
  have eq: "unat (byteUnit * multi) = ?u" using u by (rule unat_byteUnit_multi)
  have pos: "0 < ?u" using nz eq by (metis unat_eq_0 neq0_conv)
  have "unat b div ?u < 2 ^ bytesWidth"
    using b pos by (simp add: less_mult_imp_div_less mult.commute)
  then have "unat (bytes h') = unat b div ?u"
    using stored_bytes_after_Set[OF S] eq by simp
  then have "unat (GetBytes multi h') = unat b div ?u * ?u"
    by (simp add: unat_GetBytes)
  with quantize_bounds[OF pos, of "unat b"] show ?thesis by simp
qed

lemma GetQlen_quantized:
  assumes S: "Set multi h t b q r = Inr (h', out)"
    and nz: "qlenUnit * multi \<noteq> 0"
    and u: "unat qlenUnit * unat multi < 2 ^ 32"
    and q: "unat q < 2 ^ qlenWidth * (unat qlenUnit * unat multi)"
  shows "quantized_ok (unat qlenUnit * unat multi) (unat q) (unat (GetQlen multi h'))"
proof -
  let ?u = "unat qlenUnit * unat multi"
  have eq: "unat (qlenUnit * multi) = ?u" using u by (rule unat_qlenUnit_multi)
  have pos: "0 < ?u" using nz eq by (metis unat_eq_0 neq0_conv)
  have "unat q div ?u < 2 ^ qlenWidth"
    using q pos by (simp add: less_mult_imp_div_less mult.commute)
  then have st: "unat (qlen h') = unat q div ?u"
    using stored_qlen_after_Set[OF S] eq by simp
  have "unat q div ?u * ?u \<le> unat q" by simp
  also have "\<dots> < 2 ^ 32" using unsigned_less[of q] by simp
  finally have "unat (GetQlen multi h') = unat q div ?u * ?u"
    using st by (simp add: unat_GetQlen)
  with quantize_bounds[OF pos, of "unat q"] show ?thesis by simp
qed

section \<open>Wrap-around deltas\<close>

lemma scast_nonneg_int:
  fixes w :: u32
  assumes "unat w < 2 ^ 31"
  shows "unat (scast w :: u64) = unat w"
proof -
  have "int (unat w) < int (2 ^ 31)" using assms by (simp only: of_nat_less_iff)
  then have u: "uint w < 2 ^ 31" by simp
  have u0: "0 \<le> uint w" by simp
  have "sint w = signed_take_bit 31 (uint w)" by (simp add: sint_uint)
  also have "\<dots> = uint w"
  proof (rule signed_take_bit_int_eq_self)
    show "- (2 ^ 31) \<le> uint w" by (rule order_trans[OF _ u0]) simp
    show "uint w < 2 ^ 31" by (rule u)
  qed
  finally have s: "sint w = uint w" .
  have "uint (scast w :: u64) = take_bit 64 (sint w)"
    by (simp only: scast_eq uint_word_of_int_eq) simp
  also have "\<dots> = uint w"
    unfolding s
  proof (rule take_bit_int_eq_self)
    show "0 \<le> uint w" by (rule u0)
    show "uint w < 2 ^ 64" by (rule less_trans[OF u]) simp
  qed
  finally have "uint (scast w :: u64) = uint w" .
  then have "nat (uint (scast w :: u64)) = nat (uint w)" by simp
  then show ?thesis by simp
qed

lemma unat_ucast_field24: "unat (ucast (w :: 24 word) :: u32) = unat w"
proof -
  have "unat w < 2 ^ 24" using unsigned_less[of w] by simp
  then have "unat w < 2 ^ 32" by simp
  then show ?thesis by (simp add: unsigned_ucast_eq take_bit_nat_eq_self_iff)
qed

lemma unat_ucast_field20: "unat (ucast (w :: 20 word) :: u32) = unat w"
proof -
  have "unat w < 2 ^ 20" using unsigned_less[of w] by simp
  then have "unat w < 2 ^ 32" by simp
  then show ?thesis by (simp add: unsigned_ucast_eq take_bit_nat_eq_self_iff)
qed

lemma wrap_distance_mod:
  assumes "x < 2 ^ w" and "y < 2 ^ w"
  shows "wrap_distance w x y = (x + 2 ^ w - y) mod 2 ^ w"
proof -
  define m :: nat where "m = 2 ^ w"
  have xm: "x < m" and ym: "y < m" using assms by (simp_all add: m_def)
  have "(if y \<le> x then x - y else x + m - y) = (x + m - y) mod m"
  proof (cases "y \<le> x")
    case True
    then have "x + m - y = (x - y) + m" by simp
    then have "(x + m - y) mod m = (x - y) mod m" by (simp only: mod_add_self2)
    moreover have "x - y < m" using xm by simp
    ultimately have "(x + m - y) mod m = x - y" by (simp only: mod_less)
    then show ?thesis using True by (simp only: if_True)
  next
    case False
    then have "x + m - y < m" using ym by simp
    then show ?thesis using False by simp
  qed
  then show ?thesis by (simp only: wrap_distance_def m_def)
qed

lemma wrap_distance_less:
  assumes "x < 2 ^ w" and "y < 2 ^ w"
  shows "wrap_distance w x y < 2 ^ w"
proof -
  define m :: nat where "m = 2 ^ w"
  have xm: "x < m" and ym: "y < m" using assms by (simp_all add: m_def)
  have "(if y \<le> x then x - y else x + m - y) < m"
    using xm ym by (cases "y \<le> x") simp_all
  then show ?thesis by (simp only: wrap_distance_def m_def)
qed


lemma time_diff32:
  fixes a b :: "24 word"
  shows "unat ((if a \<ge> b then (ucast a :: u32) - ucast b
                else (ucast a :: u32) + push_bit timeWidth 1 - ucast b))
         = wrap_distance timeWidth (unat a) (unat b)"
proof -
  have la: "unat a < 2 ^ 24" using unsigned_less[of a] by simp
  have lb: "unat b < 2 ^ 24" using unsigned_less[of b] by simp
  show ?thesis
  proof (cases "b \<le> a")
    case True
    then have le: "unat b \<le> unat a" by (simp add: word_le_nat_alt)
    then have "(ucast b :: u32) \<le> ucast a"
      by (simp add: word_le_nat_alt unat_ucast_field24)
    then have "unat ((ucast a :: u32) - ucast b) = unat a - unat b"
      by (simp add: unat_sub unat_ucast_field24)
    with True le show ?thesis by (simp add: wrap_distance_def)
  next
    case False
    then have lt: "\<not> unat b \<le> unat a" by (simp add: word_le_nat_alt)
    have s: "unat ((ucast a :: u32) + push_bit timeWidth 1) = unat a + 2 ^ 24"
      using la by (simp add: unat_word_ariths unat_ucast_field24 timeWidth_def)
    then have "(ucast b :: u32) \<le> ucast a + push_bit timeWidth 1"
      using lb by (simp add: word_le_nat_alt unat_ucast_field24)
    then have "unat ((ucast a :: u32) + push_bit timeWidth 1 - ucast b) = unat a + 2 ^ 24 - unat b"
      using s by (simp add: unat_sub unat_ucast_field24)
    with False lt show ?thesis by (simp add: wrap_distance_def timeWidth_def)
  qed
qed

lemma bytes_diff32:
  fixes a b :: "20 word"
  shows "unat ((if a \<ge> b then (ucast a :: u32) - ucast b
                else (ucast a :: u32) + push_bit bytesWidth 1 - ucast b))
         = wrap_distance bytesWidth (unat a) (unat b)"
proof -
  have la: "unat a < 2 ^ 20" using unsigned_less[of a] by simp
  have lb: "unat b < 2 ^ 20" using unsigned_less[of b] by simp
  show ?thesis
  proof (cases "b \<le> a")
    case True
    then have le: "unat b \<le> unat a" by (simp add: word_le_nat_alt)
    then have "(ucast b :: u32) \<le> ucast a"
      by (simp add: word_le_nat_alt unat_ucast_field20)
    then have "unat ((ucast a :: u32) - ucast b) = unat a - unat b"
      by (simp add: unat_sub unat_ucast_field20)
    with True le show ?thesis by (simp add: wrap_distance_def)
  next
    case False
    then have lt: "\<not> unat b \<le> unat a" by (simp add: word_le_nat_alt)
    have s: "unat ((ucast a :: u32) + push_bit bytesWidth 1) = unat a + 2 ^ 20"
      using la by (simp add: unat_word_ariths unat_ucast_field20 bytesWidth_def)
    then have "(ucast b :: u32) \<le> ucast a + push_bit bytesWidth 1"
      using lb by (simp add: word_le_nat_alt unat_ucast_field20)
    then have "unat ((ucast a :: u32) + push_bit bytesWidth 1 - ucast b) = unat a + 2 ^ 20 - unat b"
      using s by (simp add: unat_sub unat_ucast_field20)
    with False lt show ?thesis by (simp add: wrap_distance_def bytesWidth_def)
  qed
qed

lemma unat_GetTimeDelta:
  "unat (GetTimeDelta a b) = wrap_distance timeWidth (unat (time a)) (unat (time b))"
proof -
  let ?d = "if time a \<ge> time b then (ucast (time a) :: u32) - ucast (time b)
            else (ucast (time a) :: u32) + push_bit timeWidth 1 - ucast (time b)"
  have d: "unat ?d = wrap_distance timeWidth (unat (time a)) (unat (time b))"
    by (rule time_diff32)
  have "wrap_distance timeWidth (unat (time a)) (unat (time b)) < 2 ^ timeWidth"
    using unsigned_less[of "time a"] unsigned_less[of "time b"]
    by (intro wrap_distance_less) (simp_all add: timeWidth_def)
  then have "unat ?d < 2 ^ 31" using d by (simp add: timeWidth_def)
  then have "unat (scast ?d :: u64) = unat ?d" by (rule scast_nonneg_int)
  moreover have "GetTimeDelta a b = scast ?d" by (simp add: GetTimeDelta_def)
  ultimately show ?thesis using d by simp
qed

lemma unat_mult3_u32:
  fixes x y z :: u32
  shows "unat (x * y * z) = (unat x * (unat y * unat z)) mod 2 ^ 32"
proof -
  have "unat (x * y * z) = (unat (x * y) * unat z) mod 2 ^ 32"
    by (simp add: unat_word_ariths)
  also have "unat (x * y) = (unat x * unat y) mod 2 ^ 32"
    by (simp add: unat_word_ariths)
  also have "((unat x * unat y) mod 2 ^ 32 * unat z) mod 2 ^ 32 = (unat x * unat y * unat z) mod 2 ^ 32"
    by (rule mod_mult_left_eq)
  finally show ?thesis by (simp only: mult.assoc)
qed

lemma unat_GetBytesDelta:
  "unat (GetBytesDelta multi a b)
     = (wrap_distance bytesWidth (unat (bytes a)) (unat (bytes b)) * (unat byteUnit * unat multi))
         mod 2 ^ 32"
proof -
  let ?d = "if bytes a \<ge> bytes b then (ucast (bytes a) :: u32) - ucast (bytes b)
            else (ucast (bytes a) :: u32) + push_bit bytesWidth 1 - ucast (bytes b)"
  have d: "unat ?d = wrap_distance bytesWidth (unat (bytes a)) (unat (bytes b))"
    by (rule bytes_diff32)
  have "GetBytesDelta multi a b = ucast (?d * byteUnit * multi)"
    by (simp add: GetBytesDelta_def)
  then have "unat (GetBytesDelta multi a b) = unat (?d * byteUnit * multi)"
    by (simp only: unat_ucast_u32_u64)
  also have "\<dots> = (unat ?d * (unat byteUnit * unat multi)) mod 2 ^ 32"
    by (rule unat_mult3_u32)
  finally show ?thesis using d by simp
qed

text \<open>
  The time delta is the wrap distance of the two 24-bit fields (\<open>unat_GetTimeDelta\<close>); the
  bytes delta is the wrap distance of the two 20-bit fields scaled by \<open>byteUnit * multi\<close>
  and reduced modulo \<open>2^32\<close> (\<open>unat_GetBytesDelta\<close>), which is the scaled distance
  itself as long as \<open>multi\<close> is at most 32.
\<close>

lemma GetBytesDelta_exact:
  assumes "unat multi \<le> 32"
  shows "unat (GetBytesDelta multi a b)
     = wrap_distance bytesWidth (unat (bytes a)) (unat (bytes b)) * (unat byteUnit * unat multi)"
proof -
  let ?d = "wrap_distance bytesWidth (unat (bytes a)) (unat (bytes b))"
  have "?d < 2 ^ bytesWidth"
    using unsigned_less[of "bytes a"] unsigned_less[of "bytes b"]
    by (intro wrap_distance_less) (simp_all add: bytesWidth_def)
  then have "?d \<le> 2 ^ 20 - 1" by (simp add: bytesWidth_def)
  moreover have "unat byteUnit * unat multi \<le> 128 * 32" using assms by (simp add: byteUnit_def)
  ultimately have "?d * (unat byteUnit * unat multi) \<le> (2 ^ 20 - 1) * (128 * 32)"
    by (rule mult_le_mono)
  then have "?d * (unat byteUnit * unat multi) < 2 ^ 32" by simp
  then show ?thesis by (simp add: unat_GetBytesDelta)
qed

section \<open>Claims about one hop\<close>

lemma multi_ok_1: "multi_ok 1"
  by (simp add: multi_ok_def byteUnit_def qlenUnit_def)

lemma GetLineRate_supported:
  assumes "i < length supported_rates"
  shows "GetLineRate (h\<lparr>lineRate := of_nat i\<rparr>) = supported_rates ! i"
proof -
  from assms have "i = 0 \<or> i = 1 \<or> i = 2 \<or> i = 3 \<or> i = 4"
    by (auto simp: supported_rates_def)
  then show ?thesis
    by (auto simp: GetLineRate_def lineRateValues_def supported_rates_def)
qed

text \<open>
  Claim C5.  Whenever \<open>Set\<close> runs without trapping: if the rate is the \<open>i\<close>-th of the
  five supported values (25, 50, 100, 200, 400 times \<open>10^9\<close>, \<open>i\<close> from 0 to 4), the index
  \<open>i\<close> is stored in the rate field, nothing is printed and \<open>GetLineRate\<close> then returns that
  rate; if the rate is none of them, the error line is printed, the rate field keeps its
  value from before the call, and \<open>GetLineRate\<close> returns what it returned before.
\<close>

theorem Set_rate_index_or_error:
  assumes "multi_ok multi"
  shows "\<exists>h' out. Set multi h t b q r = Inr (h', out) \<and>
           (\<forall>i < length supported_rates. r = supported_rates ! i \<longrightarrow>
               lineRate h' = of_nat i \<and> out = [] \<and> GetLineRate h' = r) \<and>
           (r \<notin> set supported_rates \<longrightarrow>
               out = [UnknownRate r] \<and> lineRate h' = lineRate h \<and>
               GetLineRate h' = GetLineRate h)"
proof -
  from Set_returns[OF assms] obtain h' out where S: "Set multi h t b q r = Inr (h', out)"
    by blast
  have known: "lineRate h' = of_nat i \<and> out = [] \<and> GetLineRate h' = r"
    if "i < length supported_rates" and "r = supported_rates ! i" for i
  proof -
    have l: "lineRate h' = of_nat i" and o: "out = []"
      using Set_known_rate[OF S that] by simp_all
    have "GetLineRate (h'\<lparr>lineRate := of_nat i\<rparr>) = r"
      using GetLineRate_supported[OF that(1)] that(2) by simp
    moreover have "h'\<lparr>lineRate := of_nat i\<rparr> = h'" using l by simp
    ultimately show ?thesis using l o by simp
  qed
  have unknown: "out = [UnknownRate r] \<and> lineRate h' = lineRate h \<and> GetLineRate h' = GetLineRate h"
    if "r \<notin> set supported_rates"
    using Set_unknown_rate[OF S that] by (simp add: GetLineRate_def)
  from S known unknown show ?thesis by blast
qed

text \<open>
  C5 at \<open>multi = 1\<close>, on a hop whose rate index is 3: the unsupported 10 Gbps leaves the
  index at 3, and 100 Gbps stores index 2.
\<close>

theorem Set_rate_index_or_error_witness:
  "multi_ok 1 \<and>
   Set 1 \<lparr>lineRate = 3, time = 7, bytes = 9, qlen = 11\<rparr> 1 2 3 10000000000
     = Inr (\<lparr>lineRate = 3, time = 1, bytes = 0, qlen = 0\<rparr>, [UnknownRate 10000000000]) \<and>
   GetLineRate \<lparr>lineRate = 3, time = 1, bytes = 0, qlen = 0\<rparr>
     = GetLineRate \<lparr>lineRate = 3, time = 7, bytes = 9, qlen = 11\<rparr> \<and>
   Set 1 \<lparr>lineRate = 3, time = 7, bytes = 9, qlen = 11\<rparr> 1 2 3 (supported_rates ! 2)
     = Inr (\<lparr>lineRate = 2, time = 1, bytes = 0, qlen = 0\<rparr>, []) \<and>
   GetLineRate \<lparr>lineRate = 2, time = 1, bytes = 0, qlen = 0\<rparr> = 100000000000"
  using Set_rate_index_or_error[OF multi_ok_1, of "\<lparr>lineRate = 3, time = 7, bytes = 9, qlen = 11\<rparr>" 1 2 3 10000000000]
    Set_rate_index_or_error[OF multi_ok_1, of "\<lparr>lineRate = 3, time = 7, bytes = 9, qlen = 11\<rparr>" 1 2 3 "supported_rates ! 2"]
  by (simp add: multi_ok_1 Set_def byteUnit_def qlenUnit_def supported_rates_def GetLineRate_def
      lineRateValues_def)

text \<open>
  Claim C10.  A call of \<open>Set\<close> with an unsupported rate still overwrites the time, bytes
  and qlen fields with the new quantised values; only the rate index keeps its prior
  value.
\<close>

theorem Set_unknown_rate_not_atomic:
  assumes "multi_ok multi" and "r \<notin> set supported_rates"
  shows "\<exists>h' out. Set multi h t b q r = Inr (h', out) \<and>
           time h' = ucast t \<and>
           bytes h' = ucast (b div ucast (byteUnit * multi)) \<and>
           qlen h' = ucast (q div (qlenUnit * multi)) \<and>
           lineRate h' = lineRate h"
proof -
  from Set_returns[OF assms(1)] obtain h' out where S: "Set multi h t b q r = Inr (h', out)"
    by blast
  from Set_fields[OF S] Set_unknown_rate(1)[OF S assms(2)] S show ?thesis by blast
qed

text \<open>
  C10 at \<open>multi = 1\<close>: after the failed call the hop differs from the hop before it in
  time, bytes and qlen.
\<close>

theorem Set_unknown_rate_not_atomic_witness:
  "multi_ok 1 \<and> (10000000000 :: u64) \<notin> set supported_rates \<and>
   Set 1 \<lparr>lineRate = 3, time = 7, bytes = 9, qlen = 11\<rparr> 5 1000 500 10000000000
     = Inr (\<lparr>lineRate = 3, time = 5, bytes = 7, qlen = 6\<rparr>, [UnknownRate 10000000000])"
proof -
  have r: "(10000000000 :: u64) \<notin> set supported_rates" by (simp add: supported_rates_def)
  from Set_unknown_rate_not_atomic[OF multi_ok_1 r, of "\<lparr>lineRate = 3, time = 7, bytes = 9, qlen = 11\<rparr>" 5 1000 500]
  show ?thesis using r multi_ok_1
    by (simp add: Set_def byteUnit_def qlenUnit_def)
qed

text \<open>
  Claim C6, as amended.  Whenever \<open>Set\<close> runs without trapping: if
  \<open>byteUnit * multi\<close> does not wrap (it is below \<open>2^32\<close>) and \<open>bytes\<close> is below
  \<open>2^bytesWidth * byteUnit * multi\<close> (so that the quotient fits the 20-bit field), then
  \<open>GetBytes\<close> after the call is a multiple of \<open>byteUnit * multi\<close> in
  \<open>[bytes - byteUnit * multi + 1, bytes]\<close>; likewise for \<open>qlen\<close> with \<open>qlenUnit\<close>, the
  17-bit field and \<open>GetQlen\<close>.
\<close>

theorem Set_then_Get_quantized:
  assumes "multi_ok multi"
  shows "\<exists>h' out. Set multi h t b q r = Inr (h', out) \<and>
           (unat byteUnit * unat multi < 2 ^ 32 \<and>
            unat b < 2 ^ bytesWidth * (unat byteUnit * unat multi) \<longrightarrow>
              quantized_ok (unat byteUnit * unat multi) (unat b) (unat (GetBytes multi h'))) \<and>
           (unat qlenUnit * unat multi < 2 ^ 32 \<and>
            unat q < 2 ^ qlenWidth * (unat qlenUnit * unat multi) \<longrightarrow>
              quantized_ok (unat qlenUnit * unat multi) (unat q) (unat (GetQlen multi h')))"
proof -
  from Set_returns[OF assms] obtain h' out where S: "Set multi h t b q r = Inr (h', out)"
    by blast
  from assms have nz: "byteUnit * multi \<noteq> 0" "qlenUnit * multi \<noteq> 0"
    by (simp_all add: multi_ok_def)
  from S GetBytes_quantized[OF S nz(1)] GetQlen_quantized[OF S nz(2)] show ?thesis by blast
qed

text \<open>C6 as amended, at \<open>multi = 1\<close>, \<open>bytes = 1000\<close>, \<open>qlen = 500\<close>.\<close>

theorem Set_then_Get_quantized_witness:
  "multi_ok 1 \<and>
   Set 1 zero_hop 5 1000 500 25000000000
     = Inr (\<lparr>lineRate = 0, time = 5, bytes = 7, qlen = 6\<rparr>, []) \<and>
   quantized_ok 128 1000 (unat (GetBytes 1 \<lparr>lineRate = 0, time = 5, bytes = 7, qlen = 6\<rparr>)) \<and>
   quantized_ok 80 500 (unat (GetQlen 1 \<lparr>lineRate = 0, time = 5, bytes = 7, qlen = 6\<rparr>))"
  using Set_then_Get_quantized[OF multi_ok_1, of zero_hop 5 1000 500 25000000000]
  by (simp add: multi_ok_1 Set_def zero_hop_def byteUnit_def qlenUnit_def bytesWidth_def qlenWidth_def)

text \<open>
  Claim C6 as stated fails.  With \<open>multi = 1\<close>, \<open>bytes = 2^27\<close> and \<open>qlen = 80 * 2^17\<close>
  the quotients are \<open>2^20\<close> and \<open>2^17\<close>, which the 20-bit and 17-bit fields store as 0,
  so both getters return 0.  With \<open>multi = 2^25 + 1\<close> the divisor \<open>byteUnit * multi\<close> wraps
  to 128, and \<open>bytes = 128\<close> is read back as \<open>128 * (2^25 + 1)\<close>.  With \<open>multi = 0\<close> the
  division traps.
\<close>

theorem Set_then_Get_quantized_counterexample:
  "Set 1 zero_hop 0 134217728 10485760 25000000000 = Inr (zero_hop, []) \<and>
   \<not> quantized_ok (unat byteUnit * unat (1 :: u32)) (unat (134217728 :: u64))
        (unat (GetBytes 1 zero_hop)) \<and>
   \<not> quantized_ok (unat qlenUnit * unat (1 :: u32)) (unat (10485760 :: u32))
        (unat (GetQlen 1 zero_hop)) \<and>
   Set 33554433 zero_hop 0 128 0 25000000000 = Inr (zero_hop\<lparr>bytes := 1\<rparr>, []) \<and>
   \<not> quantized_ok (unat byteUnit * unat (33554433 :: u32)) (unat (128 :: u64))
        (unat (GetBytes 33554433 (zero_hop\<lparr>bytes := 1\<rparr>))) \<and>
   Set 0 zero_hop 0 128 0 25000000000 = Inl DivisionByZero"
  by (simp add: Set_def zero_hop_def byteUnit_def qlenUnit_def GetBytes_def GetQlen_def
      quantized_ok_def)

text \<open>
  Claim C7 at \<open>multi = 64\<close>, hop A with stored bytes \<open>2^19\<close> and hop B with stored bytes
  0: the wrap distance \<open>2^19\<close> scaled by \<open>byteUnit * multi\<close> is \<open>2^32\<close>, but
  \<open>GetBytesDelta\<close> returns 0, because the scaling is done in 32 bits.
\<close>

theorem GetBytesDelta_scaling_overflows:
  "GetBytesDelta 64 \<lparr>lineRate = 0, time = 0, bytes = 524288, qlen = 0\<rparr> zero_hop = 0 \<and>
   wrap_distance bytesWidth (unat (524288 :: 20 word)) (unat (bytes zero_hop))
     * (unat byteUnit * unat (64 :: u32)) = 4294967296"
  by (simp add: GetBytesDelta_def zero_hop_def byteUnit_def bytesWidth_def wrap_distance_def)

section \<open>Claims about \<open>PushHop\<close>\<close>

lemma IntHeader_new_hops: "hop IntHeader_new = [zero_hop, zero_hop, zero_hop, zero_hop, zero_hop]"
  by (simp add: IntHeader_new_def maxHop_def numeral_eq_Suc)

lemma update_slot2: "[a, b, c, d, e][2 := x] = [a, b, x, d, e]"
  by (simp add: numeral_eq_Suc)

lemma unat_nhop_succ: "unat ((n :: u16) + 1) = (unat n + 1) mod 2 ^ 16"
  by (simp add: unat_word_ariths)

text \<open>
  Claim C4, as amended.  In a mode other than \<open>NORMAL\<close>, \<open>PushHop\<close> returns the header
  unchanged.  In \<open>NORMAL\<close> mode (when \<open>Set\<close> does not trap), the hop at ring slot
  \<open>nhop mod maxHop\<close> becomes what \<open>Set\<close> with the given arguments makes of it, every
  other ring slot is unchanged, and the push counter \<open>nhop\<close>, a \<open>uint16_t\<close>, is
  incremented by one modulo \<open>2^16\<close>: below 65535 its value grows by one, at 65535 it
  becomes 0.
\<close>

theorem PushHop_ring_slot:
  "(mode \<noteq> NORMAL \<longrightarrow> PushHop mode multi hdr t b q r = Inr (hdr, [])) \<and>
   (mode = NORMAL \<and> multi_ok multi \<and> wf_header hdr \<longrightarrow>
      (\<exists>h' out hdr'.
          Set multi (hop hdr ! (unat (nhop hdr) mod maxHop)) t b q r = Inr (h', out) \<and>
          PushHop mode multi hdr t b q r = Inr (hdr', out) \<and>
          wf_header hdr' \<and>
          hop hdr' ! (unat (nhop hdr) mod maxHop) = h' \<and>
          nhop hdr' = nhop hdr + 1 \<and>
          unat (nhop hdr') = (unat (nhop hdr) + 1) mod 2 ^ 16 \<and>
          (unat (nhop hdr) < 65535 \<longrightarrow> unat (nhop hdr') = unat (nhop hdr) + 1) \<and>
          (unat (nhop hdr) = 65535 \<longrightarrow> nhop hdr' = 0) \<and>
          (\<forall>j < maxHop. j \<noteq> unat (nhop hdr) mod maxHop \<longrightarrow> hop hdr' ! j = hop hdr ! j)))"
proof (intro conjI impI)
  assume "mode \<noteq> NORMAL"
  then show "PushHop mode multi hdr t b q r = Inr (hdr, [])" by (simp add: PushHop_def)
next
  assume a: "mode = NORMAL \<and> multi_ok multi \<and> wf_header hdr"
  let ?idx = "unat (nhop hdr) mod maxHop"
  from a Set_returns obtain h' out where S: "Set multi (hop hdr ! ?idx) t b q r = Inr (h', out)"
    by blast
  let ?hdr' = "hdr\<lparr>hop := (hop hdr)[?idx := h'], nhop := nhop hdr + 1\<rparr>"
  have idx: "?idx < length (hop hdr)" using a by (simp add: wf_header_def maxHop_def)
  have P: "PushHop mode multi hdr t b q r = Inr (?hdr', out)"
    using a S by (simp add: PushHop_def Let_def)
  have md: "unat (nhop hdr + 1) = (unat (nhop hdr) + 1) mod 2 ^ 16"
    by (rule unat_nhop_succ)
  have inc: "unat (nhop hdr + 1) = unat (nhop hdr) + 1" if "unat (nhop hdr) < 65535"
    using that md by simp
  have wrap: "nhop hdr + 1 = 0" if "unat (nhop hdr) = 65535"
  proof -
    from that md have "unat (nhop hdr + 1) = 0" by simp
    then show ?thesis by (simp add: unat_eq_0)
  qed
  have "wf_header ?hdr'" using a by (simp add: wf_header_def)
  moreover have "hop ?hdr' ! ?idx = h'" using idx by simp
  moreover have "\<forall>j < maxHop. j \<noteq> ?idx \<longrightarrow> hop ?hdr' ! j = hop hdr ! j" by simp
  moreover have "nhop ?hdr' = nhop hdr + 1" by simp
  moreover have "unat (nhop ?hdr') = (unat (nhop hdr) + 1) mod 2 ^ 16" using md by simp
  moreover have "unat (nhop hdr) < 65535 \<longrightarrow> unat (nhop ?hdr') = unat (nhop hdr) + 1"
    using inc by simp
  moreover have "unat (nhop hdr) = 65535 \<longrightarrow> nhop ?hdr' = 0" using wrap by simp
  ultimately show "\<exists>h' out hdr'.
          Set multi (hop hdr ! ?idx) t b q r = Inr (h', out) \<and>
          PushHop mode multi hdr t b q r = Inr (hdr', out) \<and>
          wf_header hdr' \<and>
          hop hdr' ! ?idx = h' \<and>
          nhop hdr' = nhop hdr + 1 \<and>
          unat (nhop hdr') = (unat (nhop hdr) + 1) mod 2 ^ 16 \<and>
          (unat (nhop hdr) < 65535 \<longrightarrow> unat (nhop hdr') = unat (nhop hdr) + 1) \<and>
          (unat (nhop hdr) = 65535 \<longrightarrow> nhop hdr' = 0) \<and>
          (\<forall>j < maxHop. j \<noteq> ?idx \<longrightarrow> hop hdr' ! j = hop hdr ! j)"
    using S P by (intro exI[of _ h'] exI[of _ out] exI[of _ ?hdr']) blast
qed

text \<open>
  C4 as amended, on a fresh header whose counter stands at 7: in \<open>TS\<close> mode nothing
  changes; in \<open>NORMAL\<close> mode slot \<open>7 mod 5 = 2\<close> is written and the counter becomes 8.
\<close>

theorem PushHop_ring_slot_witness:
  "PushHop TS 1 (IntHeader_new\<lparr>nhop := 7\<rparr>) 5 1000 500 25000000000
     = Inr (IntHeader_new\<lparr>nhop := 7\<rparr>, []) \<and>
   multi_ok 1 \<and> wf_header (IntHeader_new\<lparr>nhop := 7\<rparr>) \<and>
   PushHop NORMAL 1 (IntHeader_new\<lparr>nhop := 7\<rparr>) 5 1000 500 25000000000
     = Inr (\<lparr>hop = [zero_hop, zero_hop, \<lparr>lineRate = 0, time = 5, bytes = 7, qlen = 6\<rparr>,
                        zero_hop, zero_hop], nhop = 8\<rparr>, [])"
proof -
  have w: "wf_header (IntHeader_new\<lparr>nhop := 7\<rparr>)"
    by (simp add: wf_header_def IntHeader_new_def)
  have n: "PushHop NORMAL 1 (IntHeader_new\<lparr>nhop := 7\<rparr>) 5 1000 500 25000000000
     = Inr (\<lparr>hop = [zero_hop, zero_hop, \<lparr>lineRate = 0, time = 5, bytes = 7, qlen = 6\<rparr>,
                        zero_hop, zero_hop], nhop = 8\<rparr>, [])"
    by (simp add: PushHop_def maxHop_def IntHeader_new_hops update_slot2 Set_def byteUnit_def
        qlenUnit_def zero_hop_def)
  from PushHop_ring_slot[of TS 1 "IntHeader_new\<lparr>nhop := 7\<rparr>" 5 1000 500 25000000000]
    PushHop_ring_slot[of NORMAL 1 "IntHeader_new\<lparr>nhop := 7\<rparr>" 5 1000 500 25000000000]
  show ?thesis using w n multi_ok_1 by simp
qed

text \<open>
  Claim C4 as stated fails: the counter is not incremented by one for every header.  On
  a header whose counter stands at 65535 (the largest value of the \<open>uint16_t\<close>, which
  \<open>Deserialize\<close> can read from the wire), \<open>PushHop\<close> in \<open>NORMAL\<close> mode writes slot
  \<open>65535 mod 5 = 0\<close> and leaves the counter at 0, not at 65536; the next push then
  writes slot \<open>0 mod 5 = 0\<close> again.
\<close>

theorem PushHop_ring_slot_counterexample:
  "PushHop NORMAL 1 (IntHeader_new\<lparr>nhop := 65535\<rparr>) 5 1000 500 25000000000
     = Inr (\<lparr>hop = [\<lparr>lineRate = 0, time = 5, bytes = 7, qlen = 6\<rparr>, zero_hop, zero_hop,
                        zero_hop, zero_hop], nhop = 0\<rparr>, []) \<and>
   unat (0 :: u16) \<noteq> unat (nhop (IntHeader_new\<lparr>nhop := 65535\<rparr>)) + 1 \<and>
   unat (nhop (IntHeader_new\<lparr>nhop := 65535\<rparr>)) mod maxHop = 0 \<and>
   unat (0 :: u16) mod maxHop = 0"
  by (simp add: PushHop_def maxHop_def IntHeader_new_hops Set_def byteUnit_def qlenUnit_def
      zero_hop_def)

section \<open>Dispatch\<close>

lemma ReceiveFromDevice_loop_eq:
  "ReceiveFromDevice_loop es dev p proto from to pt promisc (tr, found) =
     (tr @ map (\<lambda>e. HandlerInvoked (handler e) dev p proto from to pt)
             (filter (\<lambda>e. entry_matches e dev proto promisc) es),
      found \<or> (\<exists>e \<in> set es. entry_matches e dev proto promisc))"
proof (induction es arbitrary: tr found)
  case Nil
  show ?case by simp
next
  case (Cons i rest)
  show ?case
  proof (cases "entry_matches i dev proto promisc")
    case True
    then show ?thesis using Cons.IH[of "tr @ [HandlerInvoked (handler i) dev p proto from to pt]" True]
      by (auto simp: entry_matches_def)
  next
    case False
    then show ?thesis using Cons.IH[of tr found]
      by (auto simp: entry_matches_def)
  qed
qed

text \<open>
  Claim C1.  A call of \<open>ReceiveFromDevice\<close> in the node's own context goes through the
  handler table in registration order and invokes, with the arguments of the call, exactly
  the entries that match (device filter unset or equal to the device, protocol filter zero
  or equal to the protocol type, promiscuous flag equal to the path): all of them, not only
  the first.  It returns whether at least one entry matched, and changes nothing else.
\<close>

theorem ReceiveFromDevice_dispatch:
  assumes "context = m_id (node w)"
  shows "ReceiveFromDevice w context dev p proto from to pt promisc =
           Inr ((\<exists>e \<in> set (m_handlers (node w)). entry_matches e dev proto promisc),
                w\<lparr>trace := trace w @
                   map (\<lambda>e. HandlerInvoked (handler e) dev p proto from to pt)
                     (filter (\<lambda>e. entry_matches e dev proto promisc) (m_handlers (node w)))\<rparr>)"
  using assms by (simp add: ReceiveFromDevice_def ReceiveFromDevice_loop_eq)

text \<open>
  C1 on a node with handler 1 bound to device 7 and protocol 2048, the wildcard handler
  2, and handler 3 registered as promiscuous: a non-promiscuous packet of protocol 2048 on
  device 7 invokes handlers 1 and 2, in that order, and the call returns true; on the
  promiscuous path of device 8 with protocol 5 nothing but handler 3 is invoked.
\<close>

theorem ReceiveFromDevice_dispatch_witness:
  "(4 :: u32) = m_id (node example_sim) \<and>
   ReceiveFromDevice example_sim 4 7 100 2048 11 12 0 False =
     Inr (True, example_sim\<lparr>trace := [HandlerInvoked 1 7 100 2048 11 12 0,
                                         HandlerInvoked 2 7 100 2048 11 12 0]\<rparr>) \<and>
   ReceiveFromDevice example_sim 4 8 100 5 11 12 0 True =
     Inr (True, example_sim\<lparr>trace := [HandlerInvoked 3 8 100 5 11 12 0]\<rparr>)"
  using ReceiveFromDevice_dispatch[of 4 example_sim 7 100 2048 11 12 0 False]
    ReceiveFromDevice_dispatch[of 4 example_sim 8 100 5 11 12 0 True]
  by (simp add: example_sim_def example_node_def entry_matches_def)

section \<open>Device-addition listeners\<close>

lemma NotifyDeviceAdded_loop_eq:
  "NotifyDeviceAdded_loop ls d tr = tr @ map (\<lambda>l. ListenerInvoked l d) ls"
  by (induction ls arbitrary: tr) simp_all

lemma replay_loop_eq: "replay_loop ds l tr = tr @ map (ListenerInvoked l) ds"
  by (induction ds arbitrary: tr) simp_all

lemma AddDevice_node:
  "node (snd (AddDevice w d)) = (node w)\<lparr>m_devices := m_devices (node w) @ [d]\<rparr>"
  by (simp add: AddDevice_def Let_def NotifyDeviceAdded_def)

lemma AddDevice_trace:
  "trace (snd (AddDevice w d)) =
     trace w @ ScheduledInitialize (m_id (node w)) d #
       map (\<lambda>l. ListenerInvoked l d) (m_deviceAdditionListeners (node w))"
  by (simp add: AddDevice_def Let_def NotifyDeviceAdded_def NotifyDeviceAdded_loop_eq)

lemma AddDevice_devices:
  "devices (snd (AddDevice w d)) =
     (devices w)(d := (devices w d)\<lparr>dev_node := Some (m_id (node w)),
                                     dev_ifIndex := of_nat (length (m_devices (node w))),
                                     dev_receiveCallback :=
                                       Some (NonPromiscReceiveCallback (m_id (node w)))\<rparr>)"
  by (simp add: AddDevice_def Let_def NotifyDeviceAdded_def SetNode_def SetIfIndex_def
      SetReceiveCallback_def)

lemma RegisterDeviceAdditionListener_eq:
  "RegisterDeviceAdditionListener w l =
     w\<lparr>node := (node w)\<lparr>m_deviceAdditionListeners := m_deviceAdditionListeners (node w) @ [l]\<rparr>,
       trace := trace w @ map (ListenerInvoked l) (m_devices (node w))\<rparr>"
  by (simp add: RegisterDeviceAdditionListener_def Let_def replay_loop_eq)

text \<open>
  Claim C8.  On a node with attached devices \<open>d1..dn\<close> (in attachment order),
  \<open>RegisterDeviceAdditionListener\<close> appends the listener to the listener table and invokes
  it once for each of \<open>d1..dn\<close>, in that order, and does nothing else.  An \<open>AddDevice\<close>
  (on any state, so also after the registration) schedules the initialisation of the new
  device and then invokes every entry of the listener table once, in registration order,
  for the new device only; so after a registration followed by an attachment of \<open>d\<close>, what
  has been added to the trace is the replay for \<open>d1..dn\<close>, the scheduling, and one
  invocation for \<open>d\<close> of each earlier listener and of the new one.
\<close>

theorem listener_replay_then_notify:
  "RegisterDeviceAdditionListener w l =
     w\<lparr>node := (node w)\<lparr>m_deviceAdditionListeners := m_deviceAdditionListeners (node w) @ [l]\<rparr>,
       trace := trace w @ map (ListenerInvoked l) (m_devices (node w))\<rparr> \<and>
   trace (snd (AddDevice w d)) =
     trace w @ ScheduledInitialize (m_id (node w)) d #
       map (\<lambda>l'. ListenerInvoked l' d) (m_deviceAdditionListeners (node w)) \<and>
   m_devices (node (snd (AddDevice w d))) = m_devices (node w) @ [d] \<and>
   m_deviceAdditionListeners (node (snd (AddDevice w d))) = m_deviceAdditionListeners (node w) \<and>
   trace (snd (AddDevice (RegisterDeviceAdditionListener w l) d)) =
     trace w @ map (ListenerInvoked l) (m_devices (node w)) @
       ScheduledInitialize (m_id (node w)) d #
       map (\<lambda>l'. ListenerInvoked l' d) (m_deviceAdditionListeners (node w)) @
       [ListenerInvoked l d]"
  by (simp add: AddDevice_trace AddDevice_node RegisterDeviceAdditionListener_eq)

text \<open>
  C8 on the example node (devices 7 and 8 attached, listeners 20 and 21 registered):
  registering listener 22 replays devices 7 and 8 to it; attaching device 9 afterwards
  invokes listeners 20, 21 and 22 once each, for device 9.
\<close>

theorem listener_replay_then_notify_witness:
  "trace (RegisterDeviceAdditionListener example_sim 22) =
     [ListenerInvoked 22 7, ListenerInvoked 22 8] \<and>
   trace (snd (AddDevice (RegisterDeviceAdditionListener example_sim 22) 9)) =
     [ListenerInvoked 22 7, ListenerInvoked 22 8, ScheduledInitialize 4 9,
      ListenerInvoked 20 9, ListenerInvoked 21 9, ListenerInvoked 22 9]"
proof -
  from listener_replay_then_notify[of example_sim 22 9]
  have r: "RegisterDeviceAdditionListener example_sim 22 =
      example_sim\<lparr>node := (node example_sim)\<lparr>m_deviceAdditionListeners :=
                      m_deviceAdditionListeners (node example_sim) @ [22]\<rparr>,
        trace := trace example_sim @ map (ListenerInvoked 22) (m_devices (node example_sim))\<rparr>"
    and a: "trace (snd (AddDevice (RegisterDeviceAdditionListener example_sim 22) 9)) =
      trace example_sim @ map (ListenerInvoked 22) (m_devices (node example_sim)) @
       ScheduledInitialize (m_id (node example_sim)) 9 #
       map (\<lambda>l'. ListenerInvoked l' 9) (m_deviceAdditionListeners (node example_sim)) @
       [ListenerInvoked 22 9]"
    by blast+
  have c1: "trace (RegisterDeviceAdditionListener example_sim 22) =
     [ListenerInvoked 22 7, ListenerInvoked 22 8]"
    unfolding r by (simp add: example_sim_def example_node_def)
  have c2: "trace (snd (AddDevice (RegisterDeviceAdditionListener example_sim 22) 9)) =
     [ListenerInvoked 22 7, ListenerInvoked 22 8, ScheduledInitialize 4 9,
      ListenerInvoked 20 9, ListenerInvoked 21 9, ListenerInvoked 22 9]"
    unfolding a by (simp add: example_sim_def example_node_def)
  show ?thesis by (rule conjI[OF c1 c2])
qed

section \<open>Promiscuous callbacks\<close>

lemma SetPromisc_loop_eq:
  "SetPromisc_loop ds cb st =
     (\<lambda>x. if x \<in> set ds then (st x)\<lparr>dev_promiscReceiveCallback := Some cb\<rparr> else st x)"
proof (induction ds arbitrary: st)
  case Nil
  show ?case by simp
next
  case (Cons d rest)
  show ?case by (auto simp: Cons.IH SetPromiscReceiveCallback_def fun_eq_iff)
qed

lemma RegisterProtocolHandler_wildcard_devices:
  "devices (RegisterProtocolHandler w h proto None True) =
     (\<lambda>x. if x \<in> set (m_devices (node w))
          then (devices w x)\<lparr>dev_promiscReceiveCallback :=
                               Some (PromiscReceiveCallback (m_id (node w)))\<rparr>
          else devices w x)"
  by (simp add: RegisterProtocolHandler_def Let_def SetPromisc_loop_eq)

lemma RegisterProtocolHandler_node:
  "node (RegisterProtocolHandler w h proto dev promisc) =
     (node w)\<lparr>m_handlers := m_handlers (node w) @
        [\<lparr>handler = h, protocol = proto, device = dev, promiscuous = promisc\<rparr>]\<rparr>"
  by (simp add: RegisterProtocolHandler_def Let_def split: option.splits)

text \<open>
  Claim C9.  \<open>RegisterProtocolHandler\<close> with \<open>promiscuous = true\<close> and no device installs
  the node's promiscuous receive callback on the devices attached at the time of the call,
  and changes no slot of any other device.  \<open>AddDevice\<close> leaves the promiscuous receive
  callback of every device as it was, installs the non-promiscuous receive callback on the
  new device, and changes no slot of any other device.  So a device that was not attached
  and had no promiscuous receive callback at the registration has, once attached
  afterwards, the non-promiscuous callback and still no promiscuous one.
\<close>

theorem promiscuous_install_is_snapshot:
  "(\<forall>x. dev_promiscReceiveCallback (devices (RegisterProtocolHandler w h proto None True) x) =
          (if x \<in> set (m_devices (node w)) then Some (PromiscReceiveCallback (m_id (node w)))
           else dev_promiscReceiveCallback (devices w x))) \<and>
   (\<forall>x. x \<notin> set (m_devices (node w)) \<longrightarrow>
          devices (RegisterProtocolHandler w h proto None True) x = devices w x) \<and>
   (\<forall>x. dev_promiscReceiveCallback (devices (snd (AddDevice w d)) x) =
          dev_promiscReceiveCallback (devices w x)) \<and>
   dev_receiveCallback (devices (snd (AddDevice w d)) d) =
     Some (NonPromiscReceiveCallback (m_id (node w))) \<and>
   (\<forall>x. x \<noteq> d \<longrightarrow> devices (snd (AddDevice w d)) x = devices w x) \<and>
   (d \<notin> set (m_devices (node w)) \<and> dev_promiscReceiveCallback (devices w d) = None \<longrightarrow>
      dev_promiscReceiveCallback
        (devices (snd (AddDevice (RegisterProtocolHandler w h proto None True) d)) d) = None \<and>
      dev_receiveCallback
        (devices (snd (AddDevice (RegisterProtocolHandler w h proto None True) d)) d) =
          Some (NonPromiscReceiveCallback (m_id (node w))))"
  by (simp add: AddDevice_devices RegisterProtocolHandler_wildcard_devices
      RegisterProtocolHandler_node)

text \<open>
  C9 on the example node: the wildcard promiscuous registration reaches devices 7 and 8;
  device 9, attached afterwards, gets the non-promiscuous callback only.
\<close>

theorem promiscuous_install_is_snapshot_witness:
  "(9 :: nat) \<notin> set (m_devices (node example_sim)) \<and>
   dev_promiscReceiveCallback (devices example_sim 9) = None \<and>
   dev_promiscReceiveCallback (devices (RegisterProtocolHandler example_sim 5 0 None True) 7) =
     Some (PromiscReceiveCallback 4) \<and>
   dev_promiscReceiveCallback (devices (RegisterProtocolHandler example_sim 5 0 None True) 8) =
     Some (PromiscReceiveCallback 4) \<and>
   devices (snd (AddDevice (RegisterProtocolHandler example_sim 5 0 None True) 9)) 9 =
     no_device\<lparr>dev_node := Some 4, dev_ifIndex := 2,
               dev_receiveCallback := Some (NonPromiscReceiveCallback 4)\<rparr> \<and>
   devices (snd (AddDevice (RegisterProtocolHandler example_sim 5 0 None True) 9)) 7 =
     devices (RegisterProtocolHandler example_sim 5 0 None True) 7"
  using promiscuous_install_is_snapshot[of example_sim 5 0 9]
    promiscuous_install_is_snapshot[of "RegisterProtocolHandler example_sim 5 0 None True" 5 0 9]
  by (simp add: example_sim_def example_node_def no_device_def AddDevice_devices
      RegisterProtocolHandler_wildcard_devices RegisterProtocolHandler_node)

section \<open>Bit-field layout and byte order\<close>

lemma hop_bits_lineRate: "ucast (hop_bits h) = lineRate h"
  by (rule bit_word_eqI) (auto simp: hop_bits_def bit_simps dest: bit_imp_le_length)

lemma hop_bits_time: "ucast (drop_bit 3 (hop_bits h)) = time h"
  by (rule bit_word_eqI) (auto simp: hop_bits_def bit_simps dest: bit_imp_le_length)

lemma hop_bits_bytes: "ucast (drop_bit 27 (hop_bits h)) = bytes h"
  by (rule bit_word_eqI) (auto simp: hop_bits_def bit_simps dest: bit_imp_le_length)

lemma hop_bits_qlen: "ucast (drop_bit 47 (hop_bits h)) = qlen h"
  by (rule bit_word_eqI) (auto simp: hop_bits_def bit_simps dest: bit_imp_le_length)

lemma bits_hop_hop_bits: "bits_hop (hop_bits h) = h"
  by (simp add: bits_hop_def hop_bits_lineRate hop_bits_time hop_bits_bytes hop_bits_qlen)

lemma hop_bits_bits_hop: "hop_bits (bits_hop w) = w"
proof (rule bit_word_eqI)
  fix n
  assume "n < LENGTH(64)"
  then have n: "n < 64" by simp
  consider "n < 3" | "3 \<le> n" "n < 27" | "27 \<le> n" "n < 47" | "47 \<le> n" by linarith
  then show "bit (hop_bits (bits_hop w)) n = bit w n"
  proof cases
    case 1
    then show ?thesis using n by (auto simp: hop_bits_def bits_hop_def bit_simps)
  next
    case 2
    then show ?thesis using n by (auto simp: hop_bits_def bits_hop_def bit_simps)
  next
    case 3
    then show ?thesis using n by (auto simp: hop_bits_def bits_hop_def bit_simps)
  next
    case 4
    then show ?thesis using n by (auto simp: hop_bits_def bits_hop_def bit_simps)
  qed
qed

lemma halves_u64: "push_bit 32 (ucast (ucast (drop_bit 32 w) :: u32)) OR ucast (ucast w :: u32) = (w :: u64)"
  by (rule bit_word_eqI) (auto simp: bit_simps dest: bit_imp_le_length)

lemma low_half_u64: "ucast (push_bit 32 (x :: u64) OR ucast (v :: u32)) = v"
  by (rule bit_word_eqI) (auto simp: bit_simps dest: bit_imp_le_length)

lemma high_half_u64: "ucast (drop_bit 32 (push_bit 32 (ucast (v :: u32)) OR (ucast (x :: u32) :: u64))) = v"
  by (rule bit_word_eqI) (auto simp: bit_simps dest: bit_imp_le_length)

lemma buf0_set_buf0: "buf0 (set_buf0 h v) = v"
  by (simp add: buf0_def set_buf0_def hop_bits_bits_hop low_half_u64)

lemma set_buf_both: "set_buf1 (set_buf0 x (buf0 h)) (buf1 h) = h"
proof -
  have "set_buf1 (set_buf0 x (buf0 h)) (buf1 h)
          = bits_hop (push_bit 32 (ucast (buf1 h)) OR ucast (buf0 h))"
    by (simp add: set_buf1_def buf0_set_buf0)
  also have "\<dots> = bits_hop (hop_bits h)"
    by (simp add: buf0_def buf1_def halves_u64)
  finally show ?thesis by (simp add: bits_hop_hop_bits)
qed

lemma low16_u64: "ucast (push_bit 16 (x :: u64) OR ucast (v :: u16)) = v"
  by (rule bit_word_eqI) (auto simp: bit_simps dest: bit_imp_le_length)

lemma low8_u64: "ucast (push_bit 8 (x :: u64) OR ucast (v :: u8)) = v"
  by (rule bit_word_eqI) (auto simp: bit_simps dest: bit_imp_le_length)

lemma le_word_bytes_from:
  "(le_word (map (\<lambda>k. ucast (drop_bit (8 * k) w)) [j..<j + n]) :: 'a::len word)
      = take_bit (8 * n) (drop_bit (8 * j) (w :: 'a word))"
proof (induction n arbitrary: j)
  case 0
  show ?case by simp
next
  case (Suc n)
  have "[j..<j + Suc n] = j # [Suc j..<Suc j + n]" by (simp add: upt_rec)
  then have "(le_word (map (\<lambda>k. ucast (drop_bit (8 * k) w)) [j..<j + Suc n]) :: 'a word)
      = ucast (ucast (drop_bit (8 * j) w) :: u8)
          OR push_bit 8 (take_bit (8 * n) (drop_bit (8 * Suc j) w))"
    using Suc.IH[of "Suc j"] by simp
  also have "\<dots> = take_bit (8 * Suc n) (drop_bit (8 * j) w)"
    by (rule bit_word_eqI) (auto simp: bit_simps dest: bit_imp_le_length)
  finally show ?case .
qed

lemma le_word_le_bytes:
  assumes "LENGTH('a::len) \<le> 8 * n"
  shows "le_word (le_bytes n (w :: 'a word)) = w"
proof -
  have "(le_word (le_bytes n w) :: 'a word) = take_bit (8 * n) (drop_bit (8 * 0) w)"
    unfolding le_bytes_def using le_word_bytes_from[of w 0 n] by simp
  also have "\<dots> = w" using assms by (simp add: take_bit_word_eq_self)
  finally show ?thesis .
qed

lemma length_le_bytes: "length (le_bytes n w) = n"
  by (simp add: le_bytes_def)

section \<open>Reading and writing the buffer\<close>

lemma WriteBytes_ok:
  assumes "length bs \<le> length (ahead i)"
  shows "WriteBytes i bs = Inr \<lparr>before = before i @ bs, ahead = drop (length bs) (ahead i)\<rparr>"
  using assms
proof (induction bs arbitrary: i)
  case Nil
  show ?case by simp
next
  case (Cons b bs)
  then obtain x rest where a: "ahead i = x # rest" by (cases "ahead i") auto
  with Cons.prems have "length bs \<le> length rest" by simp
  then show ?case using Cons.IH[of "\<lparr>before = before i @ [b], ahead = rest\<rparr>"] a
    by (simp add: WriteU8_def)
qed

lemma ReadBytes_ok:
  assumes "ahead i = bs @ rest"
  shows "ReadBytes i (length bs) = Inr (bs, \<lparr>before = before i @ bs, ahead = rest\<rparr>)"
  using assms
proof (induction bs arbitrary: i)
  case Nil
  then show ?case by simp
next
  case (Cons b bs)
  then show ?case using Cons.IH[of "\<lparr>before = before i @ [b], ahead = bs @ rest\<rparr>"]
    by (simp add: ReadU8_def)
qed

lemma WriteU16_ok:
  "2 \<le> length (ahead i) \<Longrightarrow>
     WriteU16 i v = Inr \<lparr>before = before i @ le_bytes 2 v, ahead = drop 2 (ahead i)\<rparr>"
  using WriteBytes_ok[of "le_bytes 2 v" i] by (simp add: WriteU16_def length_le_bytes)

lemma WriteU32_ok:
  "4 \<le> length (ahead i) \<Longrightarrow>
     WriteU32 i v = Inr \<lparr>before = before i @ le_bytes 4 v, ahead = drop 4 (ahead i)\<rparr>"
  using WriteBytes_ok[of "le_bytes 4 v" i] by (simp add: WriteU32_def length_le_bytes)

lemma WriteU64_ok:
  "8 \<le> length (ahead i) \<Longrightarrow>
     WriteU64 i v = Inr \<lparr>before = before i @ le_bytes 8 v, ahead = drop 8 (ahead i)\<rparr>"
  using WriteBytes_ok[of "le_bytes 8 v" i] by (simp add: WriteU64_def length_le_bytes)

lemma ReadU16_ok:
  "ahead i = le_bytes 2 v @ rest \<Longrightarrow>
     ReadU16 i = Inr (v, \<lparr>before = before i @ le_bytes 2 v, ahead = rest\<rparr>)"
  using ReadBytes_ok[of i "le_bytes 2 v" rest]
  by (simp add: ReadU16_def length_le_bytes le_word_le_bytes)

lemma ReadU32_ok:
  "ahead i = le_bytes 4 v @ rest \<Longrightarrow>
     ReadU32 i = Inr (v, \<lparr>before = before i @ le_bytes 4 v, ahead = rest\<rparr>)"
  using ReadBytes_ok[of i "le_bytes 4 v" rest]
  by (simp add: ReadU32_def length_le_bytes le_word_le_bytes)

lemma ReadU64_ok:
  "ahead i = le_bytes 8 v @ rest \<Longrightarrow>
     ReadU64 i = Inr (v, \<lparr>before = before i @ le_bytes 8 v, ahead = rest\<rparr>)"
  using ReadBytes_ok[of i "le_bytes 8 v" rest]
  by (simp add: ReadU64_def length_le_bytes le_word_le_bytes)

lemma length_hop_wire: "length (hop_wire h) = 8"
  by (simp add: hop_wire_def length_le_bytes)

lemma length_hops_wire: "length (concat (map (\<lambda>j. hop_wire (f j)) js)) = 8 * length js"
  by (induction js) (simp_all add: length_hop_wire)

section \<open>Serialize and Deserialize\<close>

lemma Serialize_loop_ok:
  assumes "8 * length js \<le> length (ahead i)"
  shows "Serialize_loop hdr js i =
           Inr \<lparr>before = before i @ concat (map (\<lambda>j. hop_wire (hop hdr ! j)) js),
                ahead = drop (8 * length js) (ahead i)\<rparr>"
  using assms
proof (induction js arbitrary: i)
  case Nil
  show ?case by simp
next
  case (Cons j js)
  let ?i1 = "\<lparr>before = before i @ le_bytes 4 (buf0 (hop hdr ! j)), ahead = drop 4 (ahead i)\<rparr>"
  let ?i2 = "\<lparr>before = before ?i1 @ le_bytes 4 (buf1 (hop hdr ! j)), ahead = drop 4 (ahead ?i1)\<rparr>"
  from Cons.prems have l: "8 + 8 * length js \<le> length (ahead i)" by simp
  then have w1: "WriteU32 i (buf0 (hop hdr ! j)) = Inr ?i1" by (intro WriteU32_ok) simp
  have w2: "WriteU32 ?i1 (buf1 (hop hdr ! j)) = Inr ?i2" using l by (intro WriteU32_ok) simp
  have "8 * length js \<le> length (ahead ?i2)" using l by simp
  from Cons.IH[OF this] w1 w2 show ?case
    by (simp add: hop_wire_def add.commute)
qed

lemma length_wire:
  "length (wire mode pint_bytes hdr) =
     (case mode of
        NORMAL \<Rightarrow> 42 | TS \<Rightarrow> 8
      | PINT \<Rightarrow> (if pint_bytes = 1 then 1 else if pint_bytes = 2 then 2 else 0)
      | NONE \<Rightarrow> 0)"
  by (simp add: wire_def length_hops_wire length_le_bytes maxHop_def split: Mode.splits)

lemma Serialize_ok:
  assumes "length (wire mode pint_bytes hdr) \<le> length (ahead i)"
  shows "Serialize mode pint_bytes hdr i =
           Inr \<lparr>before = before i @ wire mode pint_bytes hdr,
                ahead = drop (length (wire mode pint_bytes hdr)) (ahead i)\<rparr>"
proof (cases mode)
  case NORMAL
  with assms have l: "42 \<le> length (ahead i)" by (simp add: length_wire)
  then have "8 * length [0..<maxHop] \<le> length (ahead i)" by (simp add: maxHop_def)
  from Serialize_loop_ok[OF this, of hdr] l show ?thesis
    using NORMAL
    by (simp add: Serialize_def WriteU16_ok wire_def length_hops_wire length_le_bytes maxHop_def
        add.commute)
next
  case TS
  with assms show ?thesis
    by (simp add: Serialize_def WriteU64_ok wire_def length_le_bytes)
next
  case PINT
  show ?thesis
  proof (cases "pint_bytes = 1")
    case True
    with PINT assms obtain x rest where "ahead i = x # rest"
      by (cases "ahead i") (auto simp: wire_def)
    with True PINT show ?thesis by (simp add: Serialize_def WriteU8_def wire_def)
  next
    case False
    show ?thesis
    proof (cases "pint_bytes = 2")
      case True
      with PINT assms have "2 \<le> length (ahead i)" by (simp add: wire_def length_le_bytes)
      with True PINT show ?thesis
        by (simp add: Serialize_def WriteU16_ok wire_def length_le_bytes)
    next
      case other: False
      with False PINT show ?thesis by (cases i) (simp add: Serialize_def wire_def)
    qed
  qed
next
  case NONE
  then show ?thesis by (cases i) (simp add: Serialize_def wire_def)
qed

lemma fold_update_length:
  "length (fold (\<lambda>j hs. hs[j := xs ! j]) js ys) = length ys"
  by (induction js arbitrary: ys) simp_all

lemma fold_update_nth:
  assumes "k < length ys"
  shows "fold (\<lambda>j hs. hs[j := xs ! j]) js ys ! k = (if k \<in> set js then xs ! k else ys ! k)"
  using assms
proof (induction js arbitrary: ys)
  case Nil
  show ?case by simp
next
  case (Cons j js)
  have "k < length (ys[j := xs ! j])" using Cons.prems by simp
  from Cons.IH[OF this] Cons.prems show ?case by (auto simp: nth_list_update)
qed

lemma fold_update_all:
  assumes "length ys = n" and "length xs = n"
  shows "fold (\<lambda>j hs. hs[j := xs ! j]) [0..<n] ys = xs"
proof (rule nth_equalityI)
  show "length (fold (\<lambda>j hs. hs[j := xs ! j]) [0..<n] ys) = length xs"
    using assms by (simp add: fold_update_length)
next
  fix k
  assume "k < length (fold (\<lambda>j hs. hs[j := xs ! j]) [0..<n] ys)"
  then have k: "k < length ys" by (simp add: fold_update_length)
  from fold_update_nth[OF k, of xs "[0..<n]"] k assms
  show "fold (\<lambda>j hs. hs[j := xs ! j]) [0..<n] ys ! k = xs ! k" by simp
qed

lemma Deserialize_loop_ok:
  assumes "ahead i = concat (map (\<lambda>j. hop_wire (hop src ! j)) js) @ rest"
    and "\<forall>j \<in> set js. j < length (hop hdr)"
  shows "Deserialize_loop hdr js i =
           Inr (hdr\<lparr>hop := fold (\<lambda>j hs. hs[j := hop src ! j]) js (hop hdr)\<rparr>,
                \<lparr>before = before i @ concat (map (\<lambda>j. hop_wire (hop src ! j)) js),
                 ahead = rest\<rparr>)"
  using assms
proof (induction js arbitrary: i hdr)
  case Nil
  then show ?case by simp
next
  case (Cons j js)
  let ?tail = "concat (map (\<lambda>j. hop_wire (hop src ! j)) js) @ rest"
  let ?h = "hop src ! j"
  let ?i1 = "\<lparr>before = before i @ le_bytes 4 (buf0 ?h), ahead = le_bytes 4 (buf1 ?h) @ ?tail\<rparr>"
  let ?i2 = "\<lparr>before = before ?i1 @ le_bytes 4 (buf1 ?h), ahead = ?tail\<rparr>"
  let ?hdr2 = "hdr\<lparr>hop := (hop hdr)[j := ?h]\<rparr>"
  have j: "j < length (hop hdr)" using Cons.prems(2) by simp
  have a: "ahead i = le_bytes 4 (buf0 ?h) @ (le_bytes 4 (buf1 ?h) @ ?tail)"
    using Cons.prems(1) by (simp add: hop_wire_def)
  have r1: "ReadU32 i = Inr (buf0 ?h, ?i1)" using a by (rule ReadU32_ok)
  have r2: "ReadU32 ?i1 = Inr (buf1 ?h, ?i2)" by (rule ReadU32_ok) simp
  have tl: "\<forall>k \<in> set js. k < length (hop ?hdr2)" using Cons.prems(2) by simp
  have "ahead ?i2 = ?tail" by simp
  from Cons.IH[OF this tl] have
    "Deserialize_loop ?hdr2 js ?i2 =
       Inr (?hdr2\<lparr>hop := fold (\<lambda>j hs. hs[j := hop src ! j]) js (hop ?hdr2)\<rparr>,
            \<lparr>before = before ?i2 @ concat (map (\<lambda>j. hop_wire (hop src ! j)) js), ahead = rest\<rparr>)" .
  then show ?case using r1 r2 j
    by (simp add: Let_def set_buf_both hop_wire_def)
qed

lemma ts_set_ts: "hop hdr \<noteq> [] \<Longrightarrow> ts (set_ts hdr v) = v"
  by (cases "hop hdr") (simp_all add: ts_def set_ts_def hop_bits_bits_hop)

lemma pint_power_set: "hop hdr \<noteq> [] \<Longrightarrow> pint_power (set_pint_power hdr v) = v"
  by (cases "hop hdr") (simp_all add: pint_power_def set_pint_power_def hop_bits_bits_hop low16_u64)

lemma power_lo8_set: "hop hdr \<noteq> [] \<Longrightarrow> power_lo8 (set_power_lo8 hdr v) = v"
  by (cases "hop hdr") (simp_all add: power_lo8_def set_power_lo8_def hop_bits_bits_hop low8_u64)

lemma wf_header_nonempty: "wf_header hdr \<Longrightarrow> hop hdr \<noteq> []"
  by (auto simp: wf_header_def maxHop_def)

lemma GetStaticSize_values:
  "GetStaticSize NORMAL = 42" "GetStaticSize TS = 8" "GetStaticSize PINT = 2"
  "GetStaticSize NONE = 0"
  by (simp_all add: GetStaticSize_def maxHop_def sizeof_IntHop_def sizeof_nhop_def sizeof_ts_def
      sizeof_pint_def)

lemma Deserialize_NORMAL_ok:
  assumes "ahead i = wire NORMAL pint_bytes src @ rest" and "wf_header src" and "wf_header hdr"
  shows "Deserialize NORMAL pint_bytes hdr i =
           Inr (GetStaticSize NORMAL, src,
                \<lparr>before = before i @ wire NORMAL pint_bytes src, ahead = rest\<rparr>)"
proof -
  let ?hops = "concat (map (\<lambda>j. hop_wire (hop src ! j)) [0..<maxHop])"
  have a: "ahead i = ?hops @ (le_bytes 2 (nhop src) @ rest)"
    using assms(1) by (simp add: wire_def)
  have b: "\<forall>j \<in> set [0..<maxHop]. j < length (hop hdr)"
    using assms(3) by (simp add: wf_header_def)
  have f: "fold (\<lambda>j hs. hs[j := hop src ! j]) [0..<maxHop] (hop hdr) = hop src"
    using assms(2,3) by (intro fold_update_all) (simp_all add: wf_header_def)
  let ?i1 = "\<lparr>before = before i @ ?hops, ahead = le_bytes 2 (nhop src) @ rest\<rparr>"
  have l: "Deserialize_loop hdr [0..<maxHop] i = Inr (hdr\<lparr>hop := hop src\<rparr>, ?i1)"
    using Deserialize_loop_ok[OF a b] f by simp
  have r: "ReadU16 ?i1 = Inr (nhop src, \<lparr>before = before ?i1 @ le_bytes 2 (nhop src), ahead = rest\<rparr>)"
    by (rule ReadU16_ok) simp
  show ?thesis using l r by (simp add: Deserialize_def wire_def)
qed

lemma GetStaticSize_is_wire_length:
  assumes "mode = PINT \<longrightarrow> pint_bytes = 2"
  shows "unat (GetStaticSize mode) = length (wire mode pint_bytes hdr)"
  using assms by (cases mode) (simp_all add: GetStaticSize_values length_wire)

lemma Deserialize_ok:
  assumes a: "ahead i = wire mode pint_bytes src @ rest"
    and src: "wf_header src" and hdr: "wf_header hdr"
    and pb: "mode = PINT \<longrightarrow> pint_bytes = 1 \<or> pint_bytes = 2"
  shows "\<exists>hdr'. Deserialize mode pint_bytes hdr i =
                  Inr (GetStaticSize mode, hdr',
                       \<lparr>before = before i @ wire mode pint_bytes src, ahead = rest\<rparr>) \<and>
               observable_eq mode pint_bytes src hdr'"
proof (cases mode)
  case NORMAL
  with Deserialize_NORMAL_ok[OF _ src hdr, of i pint_bytes rest] a show ?thesis
    by (simp add: observable_eq_def)
next
  case TS
  with a have "ahead i = le_bytes 8 (ts src) @ rest" by (simp add: wire_def)
  from ReadU64_ok[OF this] TS show ?thesis
    using ts_set_ts[OF wf_header_nonempty[OF hdr]]
    by (simp add: Deserialize_def wire_def observable_eq_def GetTs_def)
next
  case PINT
  with pb consider "pint_bytes = 1" | "pint_bytes = 2" by blast
  then show ?thesis
  proof cases
    case 1
    with PINT a have "ahead i = power_lo8 src # rest" by (simp add: wire_def)
    with 1 PINT show ?thesis
      using power_lo8_set[OF wf_header_nonempty[OF hdr]]
      by (simp add: Deserialize_def ReadU8_def wire_def observable_eq_def GetPower_def)
  next
    case 2
    with PINT a have "ahead i = le_bytes 2 (pint_power src) @ rest" by (simp add: wire_def)
    from ReadU16_ok[OF this] 2 PINT show ?thesis
      using pint_power_set[OF wf_header_nonempty[OF hdr]]
      by (simp add: Deserialize_def wire_def observable_eq_def GetPower_def)
  qed
next
  case NONE
  with a have "ahead i = rest" by (simp add: wire_def)
  with NONE show ?thesis by (cases i) (simp add: Deserialize_def wire_def observable_eq_def)
qed

text \<open>
  The round trip, in every mode (with a configured width of 1 or 2 in \<open>PINT\<close> mode):
  \<open>Serialize\<close> writes the wire bytes of the header where there is room for them, and
  \<open>Deserialize\<close>, started at the same position of that buffer, returns \<open>GetStaticSize\<close>,
  a header equal to the original in what the mode makes observable, and an iterator that
  has advanced by the number of bytes that were written.
\<close>

lemma Serialize_Deserialize_roundtrip:
  assumes src: "wf_header src" and hdr: "wf_header hdr"
    and pb: "mode = PINT \<longrightarrow> pint_bytes = 1 \<or> pint_bytes = 2"
    and room: "length (wire mode pint_bytes src) \<le> length (ahead i)"
  shows "\<exists>i' hdr'.
           Serialize mode pint_bytes src i = Inr i' \<and>
           Deserialize mode pint_bytes hdr (at_position (length (before i)) i') =
             Inr (GetStaticSize mode, hdr', i') \<and>
           observable_eq mode pint_bytes src hdr' \<and>
           length (before i') = length (before i) + length (wire mode pint_bytes src)"
proof -
  let ?w = "wire mode pint_bytes src"
  let ?i' = "\<lparr>before = before i @ ?w, ahead = drop (length ?w) (ahead i)\<rparr>"
  let ?s = "at_position (length (before i)) ?i'"
  have S: "Serialize mode pint_bytes src i = Inr ?i'" using room by (rule Serialize_ok)
  have b: "before ?s = before i" and a: "ahead ?s = ?w @ drop (length ?w) (ahead i)"
    by (simp_all add: at_position_def)
  from Deserialize_ok[OF a src hdr pb] obtain hdr' where
    "Deserialize mode pint_bytes hdr ?s = Inr (GetStaticSize mode, hdr', ?i')"
    and "observable_eq mode pint_bytes src hdr'"
    by (auto simp: b)
  with S show ?thesis by (intro exI[of _ ?i'] exI[of _ hdr']) simp
qed

lemma power_lo8_example: "power_lo8 (SetPower PINT 1 IntHeader_new 90) = 90"
  by (simp add: SetPower_def power_lo8_set IntHeader_new_def maxHop_def)

text \<open>
  Claim C2 in \<open>PINT\<close> mode with a configured width of 1 byte, on a header whose power is
  90: \<open>GetStaticSize\<close> is 2 (\<open>sizeof(pint)\<close>, whatever the width), while \<open>Serialize\<close> writes one
  byte and \<open>Deserialize\<close> consumes one byte and returns 2.
\<close>

theorem GetStaticSize_PINT_one_byte:
  "GetStaticSize PINT = 2 \<and>
   Serialize PINT 1 (SetPower PINT 1 IntHeader_new 90) \<lparr>before = [], ahead = [0, 0]\<rparr>
     = Inr \<lparr>before = [90], ahead = [0]\<rparr> \<and>
   Deserialize PINT 1 IntHeader_new \<lparr>before = [], ahead = [90, 0]\<rparr>
     = Inr (2, set_power_lo8 IntHeader_new 90, \<lparr>before = [90], ahead = [0]\<rparr>)"
  by (simp add: GetStaticSize_values Serialize_def Deserialize_def WriteU8_def ReadU8_def
      power_lo8_example)

text \<open>
  Claim C3 in \<open>PINT\<close> mode with a configured width of 1 byte: the round trip of a header
  whose power is 90 gives the power back, but \<open>Deserialize\<close> has consumed one byte (the
  iterator stands one byte after the start) where \<open>GetStaticSize()\<close> is 2.
\<close>

theorem roundtrip_PINT_one_byte_consumes_one:
  "Serialize PINT 1 (SetPower PINT 1 IntHeader_new 90) \<lparr>before = [7], ahead = [0, 0]\<rparr>
     = Inr \<lparr>before = [7, 90], ahead = [0]\<rparr> \<and>
   Deserialize PINT 1 IntHeader_new (at_position 1 \<lparr>before = [7, 90], ahead = [0]\<rparr>)
     = Inr (GetStaticSize PINT, set_power_lo8 IntHeader_new 90, \<lparr>before = [7, 90], ahead = [0]\<rparr>) \<and>
   GetPower PINT 1 (set_power_lo8 IntHeader_new 90) = 90 \<and>
   GetPower PINT 1 (SetPower PINT 1 IntHeader_new 90) = 90 \<and>
   length (before \<lparr>before = [7, 90], ahead = [0]\<rparr>) - length [7 :: u8] = 1 \<and>
   unat (GetStaticSize PINT) = 2"
proof -
  have n: "hop IntHeader_new \<noteq> []" by (simp add: IntHeader_new_def maxHop_def)
  have g: "GetPower PINT 1 (set_power_lo8 IntHeader_new 90) = 90"
    by (simp add: GetPower_def power_lo8_set[OF n])
  have g': "GetPower PINT 1 (SetPower PINT 1 IntHeader_new 90) = 90"
    by (simp add: GetPower_def power_lo8_example)
  show ?thesis
    by (simp add: g g' GetStaticSize_values Serialize_def Deserialize_def WriteU8_def ReadU8_def
        power_lo8_example at_position_def)
qed

end
